theory Spec2Isabelle
  imports Complex_Main "HOL-Library.AList"
begin

section \<open>Data model of the build recommender\<close>

text \<open>
  The development follows \<^verbatim>\<open>new version/markov_trainer.py\<close> (training and
  \<^verbatim>\<open>recommend_build\<close>) and \<^verbatim>\<open>new version/marko.py\<close> (the same training loop,
  \<^verbatim>\<open>load_brain\<close>).

  A Python \<^verbatim>\<open>dict\<close> keeps its keys in insertion order, and both \<^verbatim>\<open>max\<close> and the
  stable \<^verbatim>\<open>sorted\<close> used by the query observe that order, so the learned tables are
  association lists: a new key goes to the end, an existing key keeps its place
  (\<^const>\<open>AList.update\<close>). The item catalog is only ever looked up by key, so it is a map.

  Record types follow the way the code reads its input: a field read with \<^verbatim>\<open>x['f']\<close> is a
  field of the record, a field read with \<^verbatim>\<open>x.get('f')\<close> is optional.

  Scores are Python floats that only ever hold sums of \<^verbatim>\<open>3.0\<close> and \<^verbatim>\<open>0.5\<close>; such
  sums are exact in binary floating point (far beyond any corpus size), so they are
  modelled as rationals.
\<close>

datatype event_type = ITEM_PURCHASED | ITEM_SOLD | ITEM_DESTROYED | ITEM_UNDO

record purchase =
  etype :: event_type
  timestamp :: int
  itemId :: int

record participant =
  championName :: string
  teamId :: int
  lane :: string
  win :: bool
  item_purchases :: "purchase list"

text \<open>A match file; \<^verbatim>\<open>match['participants']\<close> is the only part the trainer reads.\<close>

type_synonym match = "participant list"

record item_info =
  name :: "string option"
  tags :: "string list option"
  into :: "string list option"
  gold_total :: int

type_synonym catalog = "string \<rightharpoonup> item_info"

type_synonym row = "(string \<times> rat) list"
type_synonym transitions = "(string \<times> row) list"
type_synonym general_table = "(string \<times> transitions) list"
type_synonym specific_table = "(string \<times> general_table) list"

record advisor =
  item_data :: catalog
  specific_memory :: specific_table
  general_memory :: general_table

section \<open>Python helpers\<close>

text \<open>
  \<^verbatim>\<open>str(n)\<close> for an integer: decimal digits, with a leading minus sign.
  \<open>digit_char\<close> is only applied to numbers below ten.
\<close>

definition digit_char :: "nat \<Rightarrow> char" where
  "digit_char d = ''0123456789'' ! d"

function str_nat :: "nat \<Rightarrow> string" where
  "str_nat n = (if n < 10 then [digit_char n] else str_nat (n div 10) @ [digit_char (n mod 10)])"
  by pat_completeness auto
termination
  by (relation "measure id") auto

declare str_nat.simps [simp del]

definition str_int :: "int \<Rightarrow> string" where
  "str_int i = (if i < 0 then CHR ''-'' # str_nat (nat (- i)) else str_nat (nat i))"

text \<open>Truthiness of an optional list: \<^verbatim>\<open>None\<close> and \<^verbatim>\<open>[]\<close> are falsy.\<close>

definition truthy :: "'a list option \<Rightarrow> bool" where
  "truthy v = (case v of None \<Rightarrow> False | Some xs \<Rightarrow> xs \<noteq> [])"

text \<open>\<^verbatim>\<open>d.get(k, [])\<close> on an optional list field.\<close>

definition get_list :: "'a list option \<Rightarrow> 'a list" where
  "get_list v = (case v of None \<Rightarrow> [] | Some xs \<Rightarrow> xs)"

section \<open>The final-item filter\<close>

definition is_final_item :: "string \<Rightarrow> catalog \<Rightarrow> bool" where
  "is_final_item item_id item_data_map =
     (case item_data_map item_id of
        None \<Rightarrow> False
      | Some info \<Rightarrow>
          if ''Boots'' \<in> set (get_list (tags info)) \<and> \<not> truthy (into info) then True
          else if truthy (into info) \<or> gold_total info < 1600 then False
          else True)"

section \<open>Training\<close>

text \<open>
  Both tables are nested \<^verbatim>\<open>defaultdict\<close>s. Reading \<^verbatim>\<open>d[k]\<close> for a missing key
  inserts the default value under \<^verbatim>\<open>k\<close> (at the end) and returns it.
\<close>

definition dd_getitem :: "'v \<Rightarrow> string \<Rightarrow> (string \<times> 'v) list \<Rightarrow> 'v \<times> (string \<times> 'v) list" where
  "dd_getitem dflt k d =
     (case map_of d k of
        Some v \<Rightarrow> (v, d)
      | None \<Rightarrow> (dflt, d @ [(k, dflt)]))"

text \<open>
  \<^verbatim>\<open>d[k] = f(d[k])\<close> on a \<^verbatim>\<open>defaultdict\<close>: the value under \<^verbatim>\<open>k\<close> (the default when
  missing) is replaced in place, a missing key is appended.
\<close>

definition dd_modify :: "'v \<Rightarrow> string \<Rightarrow> ('v \<Rightarrow> 'v) \<Rightarrow> (string \<times> 'v) list \<Rightarrow> (string \<times> 'v) list" where
  "dd_modify dflt k f d =
     AList.update k (f (case map_of d k of None \<Rightarrow> dflt | Some v \<Rightarrow> v)) d"

text \<open>\<^verbatim>\<open>self.general_memory[my_champ][current_node][next_node] += weight\<close>\<close>

definition add_general :: "string \<Rightarrow> string \<Rightarrow> string \<Rightarrow> rat \<Rightarrow> general_table \<Rightarrow> general_table" where
  "add_general my_champ current_node next_node weight =
     dd_modify [] my_champ (dd_modify [] current_node (dd_modify 0 next_node (\<lambda>s. s + weight)))"

text \<open>\<^verbatim>\<open>self.specific_memory[my_champ][enemy_champ][current_node][next_node] += weight\<close>\<close>

definition add_specific ::
  "string \<Rightarrow> string \<Rightarrow> string \<Rightarrow> string \<Rightarrow> rat \<Rightarrow> specific_table \<Rightarrow> specific_table" where
  "add_specific my_champ enemy_champ current_node next_node weight =
     dd_modify [] my_champ (add_general enemy_champ current_node next_node weight)"

definition valid_lanes :: "string list" where
  "valid_lanes = [''TOP'', ''JUNGLE'', ''MIDDLE'', ''BOTTOM'', ''UTILITY'']"

text \<open>
  The search for the direct opponent: the first participant of the match on another team and
  in the same lane.
\<close>

definition find_opponent :: "participant list \<Rightarrow> participant \<Rightarrow> participant option" where
  "find_opponent participants p =
     List.find (\<lambda>opp. teamId opp \<noteq> teamId p \<and> lane opp = lane p) participants"

definition enemy_champ_of :: "participant list \<Rightarrow> participant \<Rightarrow> string" where
  "enemy_champ_of participants p =
     (case find_opponent participants p of
        Some opponent \<Rightarrow> championName opponent
      | None \<Rightarrow> ''Unknown'')"

text \<open>
  The loop over \<^verbatim>\<open>p['item_purchases']\<close>: it reads only \<^verbatim>\<open>itemId\<close>, appends a final
  item the first time it is seen, and remembers it in \<^verbatim>\<open>processed_ids\<close>.
\<close>

fun scan_purchases :: "catalog \<Rightarrow> purchase list \<Rightarrow> string list \<Rightarrow> string set \<Rightarrow> string list" where
  "scan_purchases cat [] build_sequence processed_ids = build_sequence"
| "scan_purchases cat (pu # rest) build_sequence processed_ids =
     (let i_id = str_int (itemId pu) in
      if \<not> is_final_item i_id cat then scan_purchases cat rest build_sequence processed_ids
      else if i_id \<in> processed_ids then scan_purchases cat rest build_sequence processed_ids
      else scan_purchases cat rest (build_sequence @ [i_id]) (insert i_id processed_ids))"

definition build_sequence_of :: "catalog \<Rightarrow> participant \<Rightarrow> string list" where
  "build_sequence_of cat p = scan_purchases cat (item_purchases p) [''START''] {}"

text \<open>
  The reinforcement loop \<^verbatim>\<open>for i in range(len(build_sequence) - 1)\<close>: one update of
  each table per consecutive pair.
\<close>

fun reinforce ::
  "string \<Rightarrow> string \<Rightarrow> rat \<Rightarrow> string list \<Rightarrow> specific_table \<times> general_table \<Rightarrow>
   specific_table \<times> general_table" where
  "reinforce my_champ enemy_champ weight (current_node # next_node # rest) (sm, gm) =
     reinforce my_champ enemy_champ weight (next_node # rest)
       (add_specific my_champ enemy_champ current_node next_node weight sm,
        add_general my_champ current_node next_node weight gm)"
| "reinforce my_champ enemy_champ weight [x] mem = mem"
| "reinforce my_champ enemy_champ weight [] mem = mem"

definition weight_of :: "bool \<Rightarrow> rat" where
  "weight_of w = (if w then 3 else 1 / 2)"

text \<open>The body of \<^verbatim>\<open>for p in participants\<close>.\<close>

definition train_participant ::
  "catalog \<Rightarrow> participant list \<Rightarrow> participant \<Rightarrow> specific_table \<times> general_table \<Rightarrow>
   specific_table \<times> general_table" where
  "train_participant cat participants p mem =
     (if lane p \<notin> set valid_lanes then mem
      else reinforce (championName p) (enemy_champ_of participants p) (weight_of (win p))
             (build_sequence_of cat p) mem)"

definition train_match ::
  "catalog \<Rightarrow> match \<Rightarrow> specific_table \<times> general_table \<Rightarrow> specific_table \<times> general_table" where
  "train_match cat participants mem = fold (train_participant cat participants) participants mem"

text \<open>
  \<^verbatim>\<open>train\<close>: one pass over the match files. With records of the types above no statement
  of the loop body raises, so the \<^verbatim>\<open>try/except\<close> around a file never fires.
\<close>

definition train_files ::
  "catalog \<Rightarrow> match list \<Rightarrow> specific_table \<times> general_table \<Rightarrow> specific_table \<times> general_table" where
  "train_files cat files mem = fold (train_match cat) files mem"

definition train :: "match list \<Rightarrow> advisor \<Rightarrow> advisor" where
  "train files ai =
     (let (sm, gm) = train_files (item_data ai) files (specific_memory ai, general_memory ai)
      in ai\<lparr>specific_memory := sm, general_memory := gm\<rparr>)"

text \<open>\<^verbatim>\<open>__init__\<close>: the catalog and two empty tables.\<close>

definition init_advisor :: "catalog \<Rightarrow> advisor" where
  "init_advisor cat = \<lparr>item_data = cat, specific_memory = [], general_memory = []\<rparr>"

section \<open>Querying\<close>

text \<open>
  \<^verbatim>\<open>self.item_data.get(item_id, {}).get('name', f"ID {item_id}")\<close>: the name of the
  catalog entry, or the placeholder when the entry or its name is missing.
\<close>

definition get_item_name :: "catalog \<Rightarrow> string \<Rightarrow> string" where
  "get_item_name cat item_id =
     (case cat item_id of
        None \<Rightarrow> ''ID '' @ item_id
      | Some info \<Rightarrow> (case name info of None \<Rightarrow> ''ID '' @ item_id | Some n \<Rightarrow> n))"

text \<open>
  \<^verbatim>\<open>max(next_options, key=next_options.get)\<close>: the first key, in insertion order, whose
  score is maximal (a later key replaces the candidate only when strictly greater).
\<close>

fun max_from :: "string \<times> rat \<Rightarrow> row \<Rightarrow> string \<times> rat" where
  "max_from best [] = best"
| "max_from best (kv # rest) = max_from (if snd best < snd kv then kv else best) rest"

text \<open>
  \<^verbatim>\<open>sorted(next_options.items(), key=lambda x: x[1], reverse=True)\<close>: a stable sort by
  decreasing score (\<^verbatim>\<open>reverse=True\<close> keeps equal scores in their original order).
\<close>

definition sorted_opts_of :: "row \<Rightarrow> row" where
  "sorted_opts_of next_options = sort_key (\<lambda>x. - snd x) next_options"

text \<open>One round of the greedy loop: the next item, or \<^verbatim>\<open>None\<close> for \<^verbatim>\<open>break\<close>.\<close>

definition choose_next :: "transitions \<Rightarrow> string \<Rightarrow> string set \<Rightarrow> string option" where
  "choose_next transitions current_item visited =
     (case map_of transitions current_item of
        None \<Rightarrow> None
      | Some [] \<Rightarrow> None
      | Some (kv # rest) \<Rightarrow>
          (let best_next = fst (max_from kv rest) in
           if best_next \<in> visited then
             (case List.find (\<lambda>(item, s). item \<notin> visited) (sorted_opts_of (kv # rest)) of
                None \<Rightarrow> None
              | Some (item, s) \<Rightarrow> Some item)
           else Some best_next))"

text \<open>\<^verbatim>\<open>for i in range(1, 7)\<close>, with the number of rounds left as first argument.\<close>

fun greedy_loop ::
  "nat \<Rightarrow> transitions \<Rightarrow> string \<Rightarrow> string list \<Rightarrow> string set \<Rightarrow> string list" where
  "greedy_loop 0 transitions current_item build_path visited = build_path"
| "greedy_loop (Suc n) transitions current_item build_path visited =
     (case choose_next transitions current_item visited of
        None \<Rightarrow> build_path
      | Some best_next \<Rightarrow>
          greedy_loop n transitions best_next (build_path @ [best_next]) (insert best_next visited))"

text \<open>
  The test \<^verbatim>\<open>specific_data and len(specific_data["START"]) > 0\<close> on
  \<^verbatim>\<open>specific_data = by_enemy.get(enemy_champ)\<close>. The result is the specific table when
  the test succeeds, together with \<^verbatim>\<open>by_enemy\<close> after the test: \<^verbatim>\<open>specific_data\<close> is
  the object stored in \<^verbatim>\<open>by_enemy\<close>, a \<^verbatim>\<open>defaultdict\<close>, and the subscript
  \<^verbatim>\<open>["START"]\<close> inserts a missing key into it. An opponent \<^verbatim>\<open>None\<close> is never a key.
\<close>

definition probe_specific ::
  "general_table \<Rightarrow> string option \<Rightarrow> transitions option \<times> general_table" where
  "probe_specific by_enemy enemy_champ =
     (case enemy_champ of
        None \<Rightarrow> (None, by_enemy)
      | Some e \<Rightarrow>
          (case map_of by_enemy e of
             None \<Rightarrow> (None, by_enemy)
           | Some [] \<Rightarrow> (None, by_enemy)
           | Some (x # xs) \<Rightarrow>
               (let (start_row, specific_data) = dd_getitem [] ''START'' (x # xs)
                in (if 0 < length start_row then Some specific_data else None,
                    AList.update e specific_data by_enemy))))"

text \<open>
  \<^verbatim>\<open>recommend_build\<close> of \<^verbatim>\<open>markov_trainer.py\<close>. The opponent argument may be
  \<^verbatim>\<open>None\<close>. The result is the returned value (\<^verbatim>\<open>None\<close> for the bare \<^verbatim>\<open>return\<close>)
  together with the advisor after the call: \<^verbatim>\<open>self.specific_memory[my_champ]\<close> is a
  subscript read of a \<^verbatim>\<open>defaultdict\<close>, the general table is read with \<^verbatim>\<open>.get\<close>.
  Printing is not modelled.
\<close>

definition recommend_build ::
  "advisor \<Rightarrow> string \<Rightarrow> string option \<Rightarrow> string list option \<times> advisor" where
  "recommend_build ai my_champ enemy_champ =
     (let (by_enemy, sm1) = dd_getitem [] my_champ (specific_memory ai);
          (specific, by_enemy') = probe_specific by_enemy enemy_champ;
          ai' = ai\<lparr>specific_memory := AList.update my_champ by_enemy' sm1\<rparr>;
          transitions =
            (case specific of
               Some specific_data \<Rightarrow> Some specific_data
             | None \<Rightarrow> map_of (general_memory ai) my_champ)
      in case transitions of
           None \<Rightarrow> (None, ai')
         | Some [] \<Rightarrow> (None, ai')
         | Some (t # ts) \<Rightarrow> (Some (greedy_loop 6 (t # ts) ''START'' [] {}), ai'))"

text \<open>
  \<^verbatim>\<open>_print_path\<close> of \<^verbatim>\<open>marko.py\<close> walks a table in the same way and prints one line
  per item; the model returns the identifiers of the printed items, in order. Each round
  sorts the successors and takes the first unvisited one; a missing node, an empty row, no
  unvisited successor, or an unvisited successor that is the empty string (the test
  \<^verbatim>\<open>if not best_next\<close>) ends the loop.
\<close>

definition print_choose :: "transitions \<Rightarrow> string \<Rightarrow> string set \<Rightarrow> string option" where
  "print_choose transitions current_item visited =
     (case map_of transitions current_item of
        None \<Rightarrow> None
      | Some [] \<Rightarrow> None
      | Some (kv # rest) \<Rightarrow>
          (case List.find (\<lambda>(item, s). item \<notin> visited) (sorted_opts_of (kv # rest)) of
             None \<Rightarrow> None
           | Some (item, s) \<Rightarrow> if item = [] then None else Some item))"

fun print_loop ::
  "nat \<Rightarrow> transitions \<Rightarrow> string \<Rightarrow> string list \<Rightarrow> string set \<Rightarrow> string list" where
  "print_loop 0 transitions current_item printed visited = printed"
| "print_loop (Suc n) transitions current_item printed visited =
     (case print_choose transitions current_item visited of
        None \<Rightarrow> printed
      | Some best_next \<Rightarrow>
          print_loop n transitions best_next (printed @ [best_next]) (insert best_next visited))"

definition print_path :: "transitions \<Rightarrow> string list" where
  "print_path transitions = print_loop 6 transitions ''START'' [] {}"

section \<open>Loading the snapshot\<close>

text \<open>
  \<^verbatim>\<open>load_brain\<close> of \<^verbatim>\<open>marko.py\<close>. The snapshot file is what the environment holds when
  the call is made: no file, a file that cannot be read or is not JSON, or a JSON value.
  In \<^verbatim>\<open>marko.py\<close> the two tables are plain attributes that receive whatever JSON value
  sits under \<^verbatim>\<open>"specific"\<close> and \<^verbatim>\<open>"general"\<close>.
\<close>

datatype json =
    JNull
  | JBool bool
  | JNum rat
  | JStr string
  | JArr "json list"
  | JObj "(string \<times> json) list"

datatype brain_file = NoFile | Unreadable | Content json

record brain =
  brain_specific :: json
  brain_general :: json

text \<open>
  \<^verbatim>\<open>data[key]\<close> with a string key: \<^verbatim>\<open>KeyError\<close> on an object without the key,
  \<^verbatim>\<open>TypeError\<close> on anything that is not an object; both are \<^verbatim>\<open>None\<close> here.
\<close>

fun json_getitem :: "json \<Rightarrow> string \<Rightarrow> json option" where
  "json_getitem (JObj kvs) key = map_of kvs key"
| "json_getitem _ key = None"

definition load_brain :: "brain_file \<Rightarrow> brain \<Rightarrow> bool \<times> brain" where
  "load_brain file self =
     (case file of
        NoFile \<Rightarrow> (False, self)
      | Unreadable \<Rightarrow> (False, self)
      | Content data \<Rightarrow>
          (case json_getitem data ''specific'' of
             None \<Rightarrow> (False, self)
           | Some s \<Rightarrow>
               (let self1 = self\<lparr>brain_specific := s\<rparr> in
                case json_getitem data ''general'' of
                  None \<Rightarrow> (False, self1)
                | Some g \<Rightarrow> (True, self1\<lparr>brain_general := g\<rparr>))))"

section \<open>Reading the tables\<close>

text \<open>The stored weight of an edge, if the edge is stored.\<close>

definition edge_of :: "transitions \<Rightarrow> string \<Rightarrow> string \<Rightarrow> rat option" where
  "edge_of tr a b = (case map_of tr a of None \<Rightarrow> None | Some r \<Rightarrow> map_of r b)"

definition general_edge :: "general_table \<Rightarrow> string \<Rightarrow> string \<Rightarrow> string \<Rightarrow> rat option" where
  "general_edge gm c a b = (case map_of gm c of None \<Rightarrow> None | Some tr \<Rightarrow> edge_of tr a b)"

definition specific_edge ::
  "specific_table \<Rightarrow> string \<Rightarrow> string \<Rightarrow> string \<Rightarrow> string \<Rightarrow> rat option" where
  "specific_edge sm c e a b = (case map_of sm c of None \<Rightarrow> None | Some g \<Rightarrow> general_edge g e a b)"

text \<open>Reading a score from a \<^verbatim>\<open>defaultdict(float)\<close>: a missing edge reads as zero.\<close>

definition val :: "rat option \<Rightarrow> rat" where
  "val v = (case v of None \<Rightarrow> 0 | Some x \<Rightarrow> x)"

text \<open>The nodes of a transition table: its from-node keys and its to-node keys.\<close>

definition from_nodes :: "transitions \<Rightarrow> string set" where
  "from_nodes tr = fst ` set tr"

definition to_nodes :: "transitions \<Rightarrow> string set" where
  "to_nodes tr = (\<Union>r \<in> snd ` set tr. fst ` set r)"

definition general_tables :: "general_table \<Rightarrow> transitions set" where
  "general_tables gm = snd ` set gm"

definition specific_tables :: "specific_table \<Rightarrow> transitions set" where
  "specific_tables sm = (\<Union>g \<in> snd ` set sm. snd ` set g)"

section \<open>The calls of the reinforcement loop\<close>

text \<open>
  One training pass calls the reinforcement loop once per participant whose lane is one of
  the five lanes the trainer accepts, in file and participant order. A call is recorded as
  the champion, the opponent label, the outcome and the build sequence the loop receives.
\<close>

definition reinforce_calls ::
  "catalog \<Rightarrow> match list \<Rightarrow> (string \<times> string \<times> bool \<times> string list) list" where
  "reinforce_calls cat files =
     concat (map (\<lambda>m. map (\<lambda>p. (championName p, enemy_champ_of m p, win p,
                                    build_sequence_of cat p))
                          (filter (\<lambda>p. lane p \<in> set valid_lanes) m)) files)"

text \<open>What the trainer does with one call.\<close>

definition learn_obs ::
  "string \<times> string \<times> bool \<times> string list \<Rightarrow> specific_table \<times> general_table \<Rightarrow>
   specific_table \<times> general_table" where
  "learn_obs ob mem = (case ob of (c, e, w, s) \<Rightarrow> reinforce c e (weight_of w) s mem)"

section \<open>What the specification counts\<close>

text \<open>
  The specification speaks about item identifiers, not about dictionary keys: a purchase
  event carries an integer \<^verbatim>\<open>itemId\<close>, the catalog is keyed by item identifier, and the
  nodes of a transition table are \<^verbatim>\<open>START\<close> and the item identifiers.
\<close>

datatype node = Start | Item int

type_synonym item_catalog = "int \<rightharpoonup> item_info"

text \<open>The five lanes of the corpus scanner.\<close>

definition spec_lanes :: "string set" where
  "spec_lanes = {''TOP'', ''JUNGLE'', ''MIDDLE'', ''BOTTOM'', ''UTILITY''}"

text \<open>
  The final-item filter: an item is final if it carries the \<^verbatim>\<open>Boots\<close> tag and has no
  upgrade target, or if it has no upgrade target and costs at least 1600 gold in total.
\<close>

definition no_upgrade_target :: "item_info \<Rightarrow> bool" where
  "no_upgrade_target info = (into info = None \<or> into info = Some [])"

definition has_boots_tag :: "item_info \<Rightarrow> bool" where
  "has_boots_tag info = (case tags info of None \<Rightarrow> False | Some ts \<Rightarrow> ''Boots'' \<in> set ts)"

definition spec_final :: "item_catalog \<Rightarrow> int \<Rightarrow> bool" where
  "spec_final icat i =
     (case icat i of
        None \<Rightarrow> False
      | Some info \<Rightarrow>
          (has_boots_tag info \<and> no_upgrade_target info) \<or>
          (no_upgrade_target info \<and> 1600 \<le> gold_total info))"

text \<open>
  The build sequence of a participant: \<^verbatim>\<open>START\<close> followed by the distinct final item
  identifiers of the participant's \<^verbatim>\<open>PURCHASED\<close> events in purchase order; the first
  occurrence of an identifier wins, later repeats are skipped.
\<close>

fun first_occurrences :: "'a list \<Rightarrow> 'a list" where
  "first_occurrences [] = []"
| "first_occurrences (x # xs) = x # filter (\<lambda>y. y \<noteq> x) (first_occurrences xs)"

definition purchased_items :: "participant \<Rightarrow> int list" where
  "purchased_items p =
     map itemId (filter (\<lambda>ev. etype ev = ITEM_PURCHASED) (item_purchases p))"

definition spec_sequence :: "item_catalog \<Rightarrow> participant \<Rightarrow> node list" where
  "spec_sequence icat p =
     Start # map Item (first_occurrences (filter (spec_final icat) (purchased_items p)))"

text \<open>
  The direct opponent of a participant is the first other participant of the match with a
  different \<^verbatim>\<open>teamId\<close> and the same lane.
\<close>

definition spec_opponents :: "match \<Rightarrow> participant \<Rightarrow> participant list" where
  "spec_opponents m p = filter (\<lambda>opp. teamId opp \<noteq> teamId p \<and> lane opp = lane p) m"

text \<open>
  The output of the corpus scanner as the specification describes it: one observation
  (champion, opponent, outcome, build sequence) per participant in one of the five lanes
  who has a direct opponent; a participant without one is skipped.
\<close>

definition spec_scan_participant ::
  "item_catalog \<Rightarrow> match \<Rightarrow> participant \<Rightarrow> (string \<times> string \<times> bool \<times> node list) list" where
  "spec_scan_participant icat m p =
     (if lane p \<in> spec_lanes then
        (case spec_opponents m p of
           [] \<Rightarrow> []
         | opp # others \<Rightarrow> [(championName p, championName opp, win p, spec_sequence icat p)])
      else [])"

definition spec_observations ::
  "item_catalog \<Rightarrow> match list \<Rightarrow> (string \<times> string \<times> bool \<times> node list) list" where
  "spec_observations icat files =
     concat (map (\<lambda>m. concat (map (spec_scan_participant icat m) m)) files)"

text \<open>
  The same scan with the one change the trainer makes on purpose: a participant without
  direct opponent is kept, with the opponent label \<^verbatim>\<open>Unknown\<close>.
\<close>

definition spec_label :: "match \<Rightarrow> participant \<Rightarrow> string" where
  "spec_label m p =
     (case spec_opponents m p of [] \<Rightarrow> ''Unknown'' | opp # others \<Rightarrow> championName opp)"

definition labelled_scan_participant ::
  "item_catalog \<Rightarrow> match \<Rightarrow> participant \<Rightarrow> (string \<times> string \<times> bool \<times> node list) list" where
  "labelled_scan_participant icat m p =
     (if lane p \<in> spec_lanes
      then [(championName p, spec_label m p, win p, spec_sequence icat p)]
      else [])"

definition labelled_observations ::
  "item_catalog \<Rightarrow> match list \<Rightarrow> (string \<times> string \<times> bool \<times> node list) list" where
  "labelled_observations icat files =
     concat (map (\<lambda>m. concat (map (labelled_scan_participant icat m) m)) files)"

text \<open>
  Counting: the observations of a champion with a given outcome (and, for the specific
  table, a given opponent) in whose build sequence \<open>b\<close> immediately follows \<open>a\<close>. An edge
  with no such observation is absent; otherwise its weight is 3 per win plus one half per
  loss.
\<close>

fun follows :: "'a \<Rightarrow> 'a \<Rightarrow> 'a list \<Rightarrow> bool" where
  "follows a b (x # y # rest) = ((x = a \<and> y = b) \<or> follows a b (y # rest))"
| "follows a b [x] = False"
| "follows a b [] = False"

definition count_general ::
  "(string \<times> string \<times> bool \<times> node list) list \<Rightarrow> bool \<Rightarrow> string \<Rightarrow> node \<Rightarrow> node \<Rightarrow> nat" where
  "count_general obs outcome c a b =
     length (filter (\<lambda>(c', e', w, s). c' = c \<and> w = outcome \<and> follows a b s) obs)"

definition count_specific ::
  "(string \<times> string \<times> bool \<times> node list) list \<Rightarrow> bool \<Rightarrow> string \<Rightarrow> string \<Rightarrow> node \<Rightarrow> node \<Rightarrow>
   nat" where
  "count_specific obs outcome c e a b =
     length (filter (\<lambda>(c', e', w, s). c' = c \<and> e' = e \<and> w = outcome \<and> follows a b s) obs)"

definition spec_weight :: "nat \<Rightarrow> nat \<Rightarrow> rat option" where
  "spec_weight wins losses =
     (if wins + losses = 0 then None else Some (3 * of_nat wins + 1 / 2 * of_nat losses))"

text \<open>
  Dictionary keys against identifiers. The catalog document and the tables are keyed by
  strings; a key denotes an item identifier when it is its decimal numeral: digits without
  a leading zero (except \<^verbatim>\<open>0\<close> itself), with a minus sign in front for a negative
  identifier. The key \<^verbatim>\<open>START\<close> denotes the start node; any other key denotes nothing.
\<close>

definition digit_value :: "char \<Rightarrow> nat option" where
  "digit_value ch =
     map_of [(CHR ''0'', 0), (CHR ''1'', 1), (CHR ''2'', 2), (CHR ''3'', 3), (CHR ''4'', 4),
             (CHR ''5'', 5), (CHR ''6'', 6), (CHR ''7'', 7), (CHR ''8'', 8), (CHR ''9'', 9)] ch"

fun digits_value :: "nat \<Rightarrow> string \<Rightarrow> nat option" where
  "digits_value acc [] = Some acc"
| "digits_value acc (ch # rest) =
     (case digit_value ch of
        None \<Rightarrow> None
      | Some d \<Rightarrow> digits_value (10 * acc + d) rest)"

definition spec_nat_of_key :: "string \<Rightarrow> nat option" where
  "spec_nat_of_key k =
     (case k of
        [] \<Rightarrow> None
      | ch # rest \<Rightarrow> if ch = CHR ''0'' \<and> rest \<noteq> [] then None else digits_value 0 k)"

definition spec_item_of_key :: "string \<Rightarrow> int option" where
  "spec_item_of_key k =
     (case k of
        [] \<Rightarrow> None
      | ch # rest \<Rightarrow>
          if ch = CHR ''-'' then
            (case spec_nat_of_key rest of
               None \<Rightarrow> None
             | Some n \<Rightarrow> if n = 0 then None else Some (- int n))
          else map_option int (spec_nat_of_key k))"

definition spec_node_of_key :: "string \<Rightarrow> node option" where
  "spec_node_of_key k =
     (if k = ''START'' then Some Start else map_option Item (spec_item_of_key k))"

text \<open>
  A catalog document agrees with a catalog of the specification when the entry under every
  key that denotes an identifier is the entry of that identifier. A corpus holds purchases
  only when every event of every participant is a \<^verbatim>\<open>PURCHASED\<close> event.
\<close>

definition catalog_agrees :: "catalog \<Rightarrow> item_catalog \<Rightarrow> bool" where
  "catalog_agrees cat icat = (\<forall>k i. spec_item_of_key k = Some i \<longrightarrow> cat k = icat i)"

definition purchases_only :: "match list \<Rightarrow> bool" where
  "purchases_only files =
     (\<forall>m \<in> set files. \<forall>p \<in> set m. \<forall>ev \<in> set (item_purchases p). etype ev = ITEM_PURCHASED)"

text \<open>
  What one participant adds to an edge, read off the keys: the outcome weight, 3 for a win
  and one half for a loss, when both keys denote nodes and the second node immediately
  follows the first in the participant's build sequence; nothing otherwise.
\<close>

definition spec_contribution :: "item_catalog \<Rightarrow> participant \<Rightarrow> string \<Rightarrow> string \<Rightarrow> rat" where
  "spec_contribution icat p ka kb =
     (case spec_node_of_key ka of
        None \<Rightarrow> 0
      | Some a \<Rightarrow>
          (case spec_node_of_key kb of
             None \<Rightarrow> 0
           | Some b \<Rightarrow>
               if follows a b (spec_sequence icat p) then (if win p then 3 else 1 / 2) else 0))"

text \<open>
  The other direction, as the trainer does it: the start node is written \<^verbatim>\<open>START\<close>, an
  item identifier is written with \<^verbatim>\<open>str\<close>.
\<close>

fun key_of_node :: "node \<Rightarrow> string" where
  "key_of_node Start = ''START''"
| "key_of_node (Item i) = str_int i"

text \<open>A call as the trainer sees an observation: the nodes written as keys.\<close>

definition call_of_observation ::
  "string \<times> string \<times> bool \<times> node list \<Rightarrow> string \<times> string \<times> bool \<times> string list" where
  "call_of_observation ob = (case ob of (c, e, w, s) \<Rightarrow> (c, e, w, map key_of_node s))"

section \<open>What the specification says about a query\<close>

text \<open>
  The greedy traversal in the words of the specification. A step from the current node
  may take \<open>b\<close> when \<open>b\<close> has not been visited, is a successor of the current node, and
  no unvisited successor has a greater score. A node is exhausted when it has no
  successor or all its successors have been visited. A path is a greedy traversal with
  \<open>n\<close> rounds left when every item on it is such a step and it ends either after \<open>n\<close>
  items or at an exhausted node.
\<close>

definition best_unvisited :: "transitions \<Rightarrow> string \<Rightarrow> string set \<Rightarrow> string \<Rightarrow> bool" where
  "best_unvisited tr cur vis b =
     (b \<notin> vis \<and>
      (case map_of tr cur of
         None \<Rightarrow> False
       | Some r \<Rightarrow> (\<exists>(b0, w) \<in> set r. b0 = b \<and> (\<forall>(b', w') \<in> set r. b' \<notin> vis \<longrightarrow> w' \<le> w))))"

definition exhausted :: "transitions \<Rightarrow> string \<Rightarrow> string set \<Rightarrow> bool" where
  "exhausted tr cur vis =
     (case map_of tr cur of None \<Rightarrow> True | Some r \<Rightarrow> (\<forall>(b, w) \<in> set r. b \<in> vis))"

fun spec_greedy :: "nat \<Rightarrow> transitions \<Rightarrow> string \<Rightarrow> string set \<Rightarrow> string list \<Rightarrow> bool" where
  "spec_greedy n tr cur vis [] = (n = 0 \<or> exhausted tr cur vis)"
| "spec_greedy n tr cur vis (b # p) =
     (case n of
        0 \<Rightarrow> False
      | Suc m \<Rightarrow> best_unvisited tr cur vis b \<and> spec_greedy m tr b (insert b vis) p)"

text \<open>
  The table a query walks: the selection made at the start of \<^verbatim>\<open>recommend_build\<close>,
  read off the tables before the call. The specific entry for the opponent is used when
  it is non-empty and its \<^verbatim>\<open>START\<close> row has at least one edge, the champion's general
  entry otherwise.
\<close>

definition selected_table :: "advisor \<Rightarrow> string \<Rightarrow> string option \<Rightarrow> transitions option" where
  "selected_table ai my_champ enemy_champ =
     (let specific_data =
            (case enemy_champ of
               None \<Rightarrow> None
             | Some e \<Rightarrow>
                 (case map_of (specific_memory ai) my_champ of
                    None \<Rightarrow> None
                  | Some by_enemy \<Rightarrow> map_of by_enemy e));
          general = map_of (general_memory ai) my_champ
      in case specific_data of
           None \<Rightarrow> general
         | Some sd \<Rightarrow>
             if sd \<noteq> [] \<and> (case map_of sd ''START'' of None \<Rightarrow> False | Some r \<Rightarrow> r \<noteq> [])
             then Some sd else general)"

text \<open>
  A transition table is well-formed for a catalog when each of its from-nodes is
  \<^verbatim>\<open>START\<close> or a final item, and each of its to-nodes is a final item.
\<close>

definition nodes_final :: "catalog \<Rightarrow> transitions \<Rightarrow> bool" where
  "nodes_final cat tr =
     ((\<forall>a \<in> from_nodes tr. a = ''START'' \<or> is_final_item a cat) \<and>
      (\<forall>b \<in> to_nodes tr. is_final_item b cat))"

definition memory_final :: "catalog \<Rightarrow> specific_table \<times> general_table \<Rightarrow> bool" where
  "memory_final cat mem =
     (\<forall>tr \<in> general_tables (snd mem) \<union> specific_tables (fst mem). nodes_final cat tr)"

section \<open>A worked scenario\<close>

text \<open>
  Four catalog entries: a component, two final items and final boots; and two matches of
  Garen against Darius in the top lane.
\<close>

definition scenario_catalog :: catalog where
  "scenario_catalog =
     [''1036'' \<mapsto> \<lparr>name = Some ''Long Sword'', tags = Some [''Damage''],
                    into = Some [''3071''], gold_total = 350\<rparr>,
      ''3071'' \<mapsto> \<lparr>name = Some ''Black Cleaver'', tags = Some [''Damage'', ''Health''],
                    into = None, gold_total = 3000\<rparr>,
      ''3047'' \<mapsto> \<lparr>name = Some ''Plated Steelcaps'', tags = Some [''Armor'', ''Boots''],
                    into = None, gold_total = 1200\<rparr>,
      ''3078'' \<mapsto> \<lparr>name = Some ''Trinity Force'', tags = Some [''Damage''],
                    into = Some [], gold_total = 3333\<rparr>]"

text \<open>The same four entries as a catalog of the specification, keyed by identifier.\<close>

definition scenario_items :: item_catalog where
  "scenario_items =
     [1036 \<mapsto> \<lparr>name = Some ''Long Sword'', tags = Some [''Damage''],
                  into = Some [''3071''], gold_total = 350\<rparr>,
      3071 \<mapsto> \<lparr>name = Some ''Black Cleaver'', tags = Some [''Damage'', ''Health''],
                  into = None, gold_total = 3000\<rparr>,
      3047 \<mapsto> \<lparr>name = Some ''Plated Steelcaps'', tags = Some [''Armor'', ''Boots''],
                  into = None, gold_total = 1200\<rparr>,
      3078 \<mapsto> \<lparr>name = Some ''Trinity Force'', tags = Some [''Damage''],
                  into = Some [], gold_total = 3333\<rparr>]"

definition buy :: "int \<Rightarrow> int \<Rightarrow> purchase" where
  "buy t i = \<lparr>etype = ITEM_PURCHASED, timestamp = t, itemId = i\<rparr>"

definition garen_a :: participant where
  "garen_a = \<lparr>championName = ''Garen'', teamId = 100, lane = ''TOP'', win = True,
               item_purchases = [buy 10 1036, buy 20 3071, buy 30 3047]\<rparr>"

definition darius_a :: participant where
  "darius_a = \<lparr>championName = ''Darius'', teamId = 200, lane = ''TOP'', win = False,
                item_purchases = []\<rparr>"

definition garen_b :: participant where
  "garen_b = \<lparr>championName = ''Garen'', teamId = 200, lane = ''TOP'', win = False,
               item_purchases = [buy 10 3071, buy 20 3078]\<rparr>"

definition darius_b :: participant where
  "darius_b = \<lparr>championName = ''Darius'', teamId = 100, lane = ''TOP'', win = True,
                item_purchases = []\<rparr>"

definition scenario_files :: "match list" where
  "scenario_files = [[garen_a, darius_a], [darius_b, garen_b]]"

text \<open>A match with a single participant, and a participant who only sells and loses items.\<close>

definition lone_garen :: participant where
  "lone_garen = \<lparr>championName = ''Garen'', teamId = 100, lane = ''TOP'', win = True,
                  item_purchases = [buy 10 3071]\<rparr>"

definition seller :: participant where
  "seller = \<lparr>championName = ''Garen'', teamId = 100, lane = ''TOP'', win = True,
      item_purchases = [\<lparr>etype = ITEM_DESTROYED, timestamp = 10, itemId = 3047\<rparr>,
                        \<lparr>etype = ITEM_SOLD, timestamp = 20, itemId = 3071\<rparr>]\<rparr>"

definition scenario_trained :: advisor where
  "scenario_trained = train scenario_files (init_advisor scenario_catalog)"

text \<open>
  A catalog in which two identifiers carry the same display name, and a match in which
  Garen buys both.
\<close>

definition twin_catalog :: catalog where
  "twin_catalog =
     scenario_catalog(''223071'' \<mapsto>
       \<lparr>name = Some ''Black Cleaver'', tags = Some [''Damage'', ''Health''],
        into = None, gold_total = 3000\<rparr>)"

definition twin_garen :: participant where
  "twin_garen = \<lparr>championName = ''Garen'', teamId = 100, lane = ''TOP'', win = True,
                  item_purchases = [buy 10 3071, buy 20 223071]\<rparr>"

definition twin_trained :: advisor where
  "twin_trained = train [[twin_garen]] (init_advisor twin_catalog)"

text \<open>A participant whose lane is none of the five.\<close>

definition roaming_garen :: participant where
  "roaming_garen = \<lparr>championName = ''Garen'', teamId = 100, lane = ''NONE'', win = True,
                     item_purchases = [buy 10 3071]\<rparr>"

section \<open>Evaluating the scenario\<close>

lemma str_int_examples:
  "str_int 1036 = ''1036''" "str_int 3071 = ''3071''"
  "str_int 3047 = ''3047''" "str_int 3078 = ''3078''"
  by (simp_all add: str_int_def str_nat.simps digit_char_def)

lemma scenario_final:
  "is_final_item ''3047'' scenario_catalog" "is_final_item ''3071'' scenario_catalog"
  "\<not> is_final_item ''1036'' scenario_catalog" "is_final_item ''3078'' scenario_catalog"
  by (simp_all add: is_final_item_def scenario_catalog_def truthy_def get_list_def)

lemma scenario_trained_tables:
  "specific_memory scenario_trained =
     [(''Garen'', [(''Darius'', [(''START'', [(''3071'', 7 / 2)]),
                                (''3071'', [(''3047'', 3), (''3078'', 1 / 2)])])])]"
  "general_memory scenario_trained =
     [(''Garen'', [(''START'', [(''3071'', 7 / 2)]),
                  (''3071'', [(''3047'', 3), (''3078'', 1 / 2)])])]"
  "item_data scenario_trained = scenario_catalog"
  by (simp_all add: scenario_trained_def train_def train_files_def train_match_def
      train_participant_def scenario_files_def init_advisor_def valid_lanes_def
      enemy_champ_of_def find_opponent_def build_sequence_of_def buy_def str_int_examples
      scenario_final weight_of_def add_specific_def add_general_def dd_modify_def
      garen_a_def garen_b_def darius_a_def darius_b_def)

section \<open>Table updates\<close>

lemma map_of_dd_modify:
  "map_of (dd_modify d k f t) k' =
     (if k' = k then Some (f (case map_of t k of None \<Rightarrow> d | Some v \<Rightarrow> v)) else map_of t k')"
  by (simp add: dd_modify_def update_conv')

lemma general_edge_add:
  "general_edge (add_general c a b w gm) c' a' b' =
     (if c' = c \<and> a' = a \<and> b' = b then Some (val (general_edge gm c a b) + w)
      else general_edge gm c' a' b')"
  by (auto simp: general_edge_def edge_of_def add_general_def map_of_dd_modify val_def
      split: option.splits)

lemma specific_edge_add:
  "specific_edge (add_specific c e a b w sm) c' e' a' b' =
     (if c' = c \<and> e' = e \<and> a' = a \<and> b' = b then Some (val (specific_edge sm c e a b) + w)
      else specific_edge sm c' e' a' b')"
  by (auto simp: specific_edge_def add_specific_def map_of_dd_modify general_edge_add
      split: option.splits) (simp_all add: general_edge_def)

lemma follows_in_tail: "follows a b (x # xs) \<Longrightarrow> b \<in> set xs"
  by (induction xs arbitrary: x) auto

lemma reinforce_general_val:
  "distinct (tl s) \<Longrightarrow>
   val (general_edge (snd (reinforce c e w s mem)) c' a b) =
     val (general_edge (snd mem) c' a b) + (if c' = c \<and> follows a b s then w else 0)"
proof (induction c e w s mem rule: reinforce.induct)
  case (1 c e w cur nxt rest sm gm)
  then show ?case
    by (auto simp: general_edge_add val_def dest: follows_in_tail)
qed simp_all

lemma reinforce_general_None:
  "general_edge (snd (reinforce c e w s mem)) c' a b = None \<longleftrightarrow>
     general_edge (snd mem) c' a b = None \<and> \<not> (c' = c \<and> follows a b s)"
proof (induction c e w s mem rule: reinforce.induct)
  case (1 c e w cur nxt rest sm gm)
  then show ?case
    by (auto simp: general_edge_add)
qed simp_all

lemma reinforce_specific_val:
  "distinct (tl s) \<Longrightarrow>
   val (specific_edge (fst (reinforce c e w s mem)) c' e' a b) =
     val (specific_edge (fst mem) c' e' a b) +
       (if c' = c \<and> e' = e \<and> follows a b s then w else 0)"
proof (induction c e w s mem rule: reinforce.induct)
  case (1 c e w cur nxt rest sm gm)
  then show ?case
    by (auto simp: specific_edge_add val_def dest: follows_in_tail)
qed simp_all

lemma reinforce_specific_None:
  "specific_edge (fst (reinforce c e w s mem)) c' e' a b = None \<longleftrightarrow>
     specific_edge (fst mem) c' e' a b = None \<and> \<not> (c' = c \<and> e' = e \<and> follows a b s)"
proof (induction c e w s mem rule: reinforce.induct)
  case (1 c e w cur nxt rest sm gm)
  then show ?case
    by (auto simp: specific_edge_add)
qed simp_all

section \<open>Build sequences\<close>

lemma scan_purchases_append:
  "scan_purchases cat ps s proc = s @ scan_purchases cat ps [] proc"
proof (induction ps arbitrary: s proc)
  case Nil
  then show ?case by simp
next
  case (Cons pu ps)
  show ?case
    using Cons.IH [of s proc]
      Cons.IH [of "s @ [str_int (itemId pu)]" "insert (str_int (itemId pu)) proc"]
      Cons.IH [of "[str_int (itemId pu)]" "insert (str_int (itemId pu)) proc"]
    by (simp add: Let_def)
qed

lemma scan_purchases_items:
  "distinct (scan_purchases cat ps [] proc) \<and>
   set (scan_purchases cat ps [] proc) \<inter> proc = {} \<and>
   (\<forall>i \<in> set (scan_purchases cat ps [] proc). is_final_item i cat)"
proof (induction ps arbitrary: proc)
  case Nil
  then show ?case by simp
next
  case (Cons pu ps)
  show ?case
    using Cons.IH [of proc] Cons.IH [of "insert (str_int (itemId pu)) proc"]
      scan_purchases_append [of cat ps "[str_int (itemId pu)]"
        "insert (str_int (itemId pu)) proc"]
    by (auto simp: Let_def)
qed

lemma build_sequence_of_shape:
  "build_sequence_of cat p = ''START'' # scan_purchases cat (item_purchases p) [] {}"
  using scan_purchases_append [of cat "item_purchases p" "[''START'']" "{}"]
  by (simp add: build_sequence_of_def)

lemma filter_skip_member:
  "x \<in> S \<Longrightarrow> filter (\<lambda>i. i \<noteq> x \<and> i \<notin> S) xs = filter (\<lambda>i. i \<notin> S) xs"
  by (rule filter_cong) auto

lemma scan_purchases_first_occurrences:
  "scan_purchases cat ps [] proc =
     filter (\<lambda>i. i \<notin> proc)
       (first_occurrences
          (filter (\<lambda>i. is_final_item i cat) (map (\<lambda>pu. str_int (itemId pu)) ps)))"
proof (induction ps arbitrary: proc)
  case Nil
  then show ?case by simp
next
  case (Cons pu ps)
  let ?i = "str_int (itemId pu)"
  show ?case
    using Cons.IH [of proc] Cons.IH [of "insert ?i proc"]
      scan_purchases_append [of cat ps "[?i]" "insert ?i proc"]
    by (simp add: Let_def filter_skip_member)
qed

lemma build_sequence_of_first_occurrences:
  "build_sequence_of cat p =
     ''START'' # first_occurrences
       (filter (\<lambda>i. is_final_item i cat) (map (\<lambda>pu. str_int (itemId pu)) (item_purchases p)))"
  by (simp add: build_sequence_of_shape scan_purchases_first_occurrences)

lemma build_sequence_of_distinct: "distinct (tl (build_sequence_of cat p))"
  by (simp add: build_sequence_of_shape scan_purchases_items)

lemma build_sequence_of_final:
  "i \<in> set (tl (build_sequence_of cat p)) \<Longrightarrow> is_final_item i cat"
  by (simp add: build_sequence_of_shape scan_purchases_items)

section \<open>Properties of the final-item filter\<close>

lemma is_final_item_in_catalog:
  "is_final_item i cat \<Longrightarrow> cat i \<noteq> None"
  by (auto simp: is_final_item_def split: option.splits)

text \<open>
  Claim C2. \<^verbatim>\<open>is_final_item\<close> returns true exactly when the identifier is in the
  catalog, its entry has no upgrade target (\<^verbatim>\<open>into\<close> absent or empty) and the entry
  either carries the \<^verbatim>\<open>Boots\<close> tag or costs at least 1600 gold in total. In particular:
  an entry with \<^verbatim>\<open>into = [X]\<close> is not final; a non-boots entry without upgrade target
  is not final at 1599 gold and final at 1600; a boots entry without \<^verbatim>\<open>into\<close> is
  final whatever its price; an identifier absent from the catalog is not final.
\<close>

theorem is_final_item_spec:
  "(is_final_item item_id cat \<longleftrightarrow>
      (\<exists>info. cat item_id = Some info \<and> (into info = None \<or> into info = Some []) \<and>
         (''Boots'' \<in> set (get_list (tags info)) \<or> 1600 \<le> gold_total info))) \<and>
   (\<forall>info x. cat item_id = Some info \<and> into info = Some [x] \<longrightarrow>
      \<not> is_final_item item_id cat) \<and>
   (\<forall>info. cat item_id = Some info \<and> \<not> truthy (into info) \<and>
      ''Boots'' \<notin> set (get_list (tags info)) \<and> gold_total info = 1599 \<longrightarrow>
      \<not> is_final_item item_id cat) \<and>
   (\<forall>info. cat item_id = Some info \<and> \<not> truthy (into info) \<and> gold_total info = 1600 \<longrightarrow>
      is_final_item item_id cat) \<and>
   (\<forall>info. cat item_id = Some info \<and> \<not> truthy (into info) \<and>
      ''Boots'' \<in> set (get_list (tags info)) \<longrightarrow> is_final_item item_id cat) \<and>
   (cat item_id = None \<longrightarrow> \<not> is_final_item item_id cat)"
  by (auto simp: is_final_item_def truthy_def split: option.splits)

theorem is_final_item_spec_witness:
  "is_final_item ''3047'' scenario_catalog \<and> is_final_item ''3071'' scenario_catalog \<and>
   \<not> is_final_item ''1036'' scenario_catalog \<and> \<not> is_final_item ''9999'' scenario_catalog \<and>
   \<not> is_final_item ''7'' [''7'' \<mapsto> \<lparr>name = None, tags = None, into = None, gold_total = 1599\<rparr>] \<and>
   is_final_item ''7'' [''7'' \<mapsto> \<lparr>name = None, tags = None, into = None, gold_total = 1600\<rparr>]"
  using is_final_item_spec [of "''3047''" scenario_catalog]
        is_final_item_spec [of "''3071''" scenario_catalog]
        is_final_item_spec [of "''1036''" scenario_catalog]
        is_final_item_spec [of "''9999''" scenario_catalog]
        is_final_item_spec [of "''7''"
          "[''7'' \<mapsto> \<lparr>name = None, tags = None, into = None, gold_total = 1599\<rparr>]"]
        is_final_item_spec [of "''7''"
          "[''7'' \<mapsto> \<lparr>name = None, tags = None, into = None, gold_total = 1600\<rparr>]"]
  by (simp add: scenario_catalog_def truthy_def get_list_def)

section \<open>Keys and identifiers\<close>

lemma digit_value_digit_char: "d < 10 \<Longrightarrow> digit_value (digit_char d) = Some d"
proof -
  assume "d < 10"
  then have "d \<in> {0, 1, 2, 3, 4, 5, 6, 7, 8, 9}" by auto
  then show ?thesis by (auto simp: digit_char_def digit_value_def)
qed

lemma digit_value_Some: "digit_value ch = Some d \<Longrightarrow> d < 10 \<and> ch = digit_char d"
  by (auto simp: digit_value_def digit_char_def split: if_splits)

lemma digits_value_append:
  "digits_value acc (xs @ ys) =
     (case digits_value acc xs of None \<Rightarrow> None | Some a \<Rightarrow> digits_value a ys)"
  by (induction xs arbitrary: acc) (auto split: option.splits)

lemma str_nat_small: "n < 10 \<Longrightarrow> str_nat n = [digit_char n]"
  by (simp add: str_nat.simps)

lemma str_nat_large:
  "10 \<le> n \<Longrightarrow> str_nat n = str_nat (n div 10) @ [digit_char (n mod 10)]"
  by (subst str_nat.simps) simp

lemma str_nat_not_empty: "str_nat n \<noteq> []"
  by (subst str_nat.simps) simp

lemma digits_value_str_nat: "digits_value 0 (str_nat n) = Some n"
proof (induction n rule: str_nat.induct)
  case (1 n)
  show ?case
  proof (cases "n < 10")
    case True
    then show ?thesis by (simp add: str_nat_small digit_value_digit_char)
  next
    case False
    then have "digits_value 0 (str_nat (n div 10)) = Some (n div 10)" using "1.IH" by simp
    then show ?thesis
      using False by (simp add: str_nat_large digits_value_append digit_value_digit_char)
  qed
qed

lemma str_nat_hd_zero: "hd (str_nat n) = CHR ''0'' \<Longrightarrow> n = 0"
proof (induction n rule: str_nat.induct)
  case (1 n)
  show ?case
  proof (cases "n < 10")
    case True
    then have "digit_value (digit_char n) = Some n" by (rule digit_value_digit_char)
    moreover have "digit_char n = CHR ''0''" using "1.prems" True by (simp add: str_nat_small)
    moreover have "digit_value (CHR ''0'') = Some 0" by (simp add: digit_value_def)
    ultimately show ?thesis by simp
  next
    case False
    then have "hd (str_nat (n div 10)) = CHR ''0''"
      using "1.prems" by (simp add: str_nat_large str_nat_not_empty)
    then have "n div 10 = 0" using "1.IH" False by simp
    then show ?thesis using False by simp
  qed
qed

lemma str_nat_hd_digit: "digit_value (hd (str_nat n)) \<noteq> None"
proof -
  obtain ch rest where c: "str_nat n = ch # rest"
    using str_nat_not_empty [of n] by (cases "str_nat n") auto
  have "digits_value 0 (ch # rest) = Some n" using digits_value_str_nat [of n] c by simp
  then show ?thesis using c by (auto split: option.splits)
qed

lemma spec_nat_of_key_str_nat: "spec_nat_of_key (str_nat n) = Some n"
proof -
  obtain ch rest where c: "str_nat n = ch # rest"
    using str_nat_not_empty [of n] by (cases "str_nat n") auto
  have "rest = []" if "ch = CHR ''0''"
  proof -
    have "n = 0" using str_nat_hd_zero [of n] c that by simp
    then show ?thesis using c by (simp add: str_nat_small)
  qed
  then show ?thesis
    using digits_value_str_nat [of n] c by (auto simp: spec_nat_of_key_def)
qed

lemma spec_item_of_key_str_int: "spec_item_of_key (str_int i) = Some i"
proof (cases "i < 0")
  case True
  then show ?thesis
    by (simp add: str_int_def spec_item_of_key_def spec_nat_of_key_str_nat)
next
  case False
  obtain ch rest where c: "str_nat (nat i) = ch # rest"
    using str_nat_not_empty [of "nat i"] by (cases "str_nat (nat i)") auto
  have "digit_value ch \<noteq> None" using str_nat_hd_digit [of "nat i"] c by simp
  moreover have "digit_value (CHR ''-'') = None" by (simp add: digit_value_def)
  ultimately have "ch \<noteq> CHR ''-''" by auto
  then show ?thesis
    using False c spec_nat_of_key_str_nat [of "nat i"]
    by (simp add: str_int_def spec_item_of_key_def)
qed

lemma digits_value_canonical:
  "k \<noteq> [] \<Longrightarrow> (hd k = CHR ''0'' \<longrightarrow> k = ''0'') \<Longrightarrow> digits_value 0 k = Some n \<Longrightarrow>
   k = str_nat n"
proof (induction k arbitrary: n rule: rev_induct)
  case Nil
  then show ?case by simp
next
  case (snoc ch ks)
  obtain m where m: "digits_value 0 ks = Some m" and l: "digits_value m [ch] = Some n"
    using snoc.prems(3) by (auto simp: digits_value_append split: option.splits)
  obtain d where d: "digit_value ch = Some d" and n: "n = 10 * m + d"
    using l by (auto split: option.splits)
  have dl: "d < 10" and ch: "ch = digit_char d" using digit_value_Some [OF d] by simp_all
  show ?case
  proof (cases "ks = []")
    case True
    then have "m = 0" using m by simp
    then show ?thesis using True n dl ch by (simp add: str_nat_small)
  next
    case False
    have nz: "hd ks \<noteq> CHR ''0''"
    proof
      assume "hd ks = CHR ''0''"
      then have "hd (ks @ [ch]) = CHR ''0''" using False by simp
      then have "ks @ [ch] = ''0''" using snoc.prems(2) by simp
      then show False using False by (cases ks) auto
    qed
    have ks: "ks = str_nat m" using snoc.IH [OF False _ m] nz by simp
    have "m \<noteq> 0"
    proof
      assume "m = 0"
      then have "ks = str_nat 0" using ks by simp
      then have "hd ks = CHR ''0''" by (simp add: str_nat_small digit_char_def)
      then show False using nz by simp
    qed
    then have "10 \<le> n" "n div 10 = m" "n mod 10 = d" using n dl by auto
    then show ?thesis using ks ch by (simp add: str_nat_large)
  qed
qed

lemma spec_nat_of_key_canonical: "spec_nat_of_key k = Some n \<Longrightarrow> k = str_nat n"
proof -
  assume a: "spec_nat_of_key k = Some n"
  then obtain ch rest where k: "k = ch # rest"
    by (cases k) (auto simp: spec_nat_of_key_def)
  have c: "hd k = CHR ''0'' \<longrightarrow> k = ''0''"
    using a k by (auto simp: spec_nat_of_key_def split: if_splits)
  have "digits_value 0 k = Some n"
    using a k by (auto simp: spec_nat_of_key_def split: if_splits)
  then show ?thesis using digits_value_canonical [of k n] k c by simp
qed

lemma spec_item_of_key_canonical: "spec_item_of_key k = Some i \<Longrightarrow> k = str_int i"
proof -
  assume a: "spec_item_of_key k = Some i"
  then obtain ch rest where k: "k = ch # rest"
    by (cases k) (auto simp: spec_item_of_key_def)
  show ?thesis
  proof (cases "ch = CHR ''-''")
    case True
    then obtain n where n: "spec_nat_of_key rest = Some n" "n \<noteq> 0" "i = - int n"
      using a k by (auto simp: spec_item_of_key_def split: option.splits if_splits)
    then have "rest = str_nat n" using spec_nat_of_key_canonical by simp
    then show ?thesis using k True n by (simp add: str_int_def)
  next
    case False
    then obtain n where n: "spec_nat_of_key k = Some n" "i = int n"
      using a k by (auto simp: spec_item_of_key_def)
    then have "k = str_nat n" using spec_nat_of_key_canonical by simp
    then show ?thesis using n by (simp add: str_int_def)
  qed
qed

lemma str_int_inj: "str_int i = str_int j \<Longrightarrow> i = j"
  by (metis option.inject spec_item_of_key_str_int)

lemma spec_node_of_key_key_of_node: "spec_node_of_key (key_of_node n) = Some n"
proof (cases n)
  case Start
  then show ?thesis by (simp add: spec_node_of_key_def)
next
  case (Item i)
  have "spec_item_of_key ''START'' = None"
    by (simp add: spec_item_of_key_def spec_nat_of_key_def digit_value_def)
  then have "str_int i \<noteq> ''START''" using spec_item_of_key_str_int [of i] by auto
  then show ?thesis using Item by (simp add: spec_node_of_key_def spec_item_of_key_str_int)
qed

lemma spec_node_of_key_canonical:
  assumes "spec_node_of_key k = Some n"
  shows "k = key_of_node n"
proof (cases "k = ''START''")
  case True
  then have "n = Start" using assms by (simp add: spec_node_of_key_def)
  then show ?thesis using True by simp
next
  case False
  then obtain i where i: "spec_item_of_key k = Some i" and n: "n = Item i"
    using assms by (auto simp: spec_node_of_key_def)
  have "k = str_int i" using i by (rule spec_item_of_key_canonical)
  then show ?thesis using n by simp
qed

lemma key_of_node_inj: "key_of_node a = key_of_node b \<Longrightarrow> a = b"
  by (metis option.inject spec_node_of_key_key_of_node)

section \<open>The trainer against the specification\<close>

lemma is_final_item_spec_final:
  assumes "catalog_agrees cat icat"
  shows "is_final_item (str_int i) cat = spec_final icat i"
proof -
  have c: "cat (str_int i) = icat i"
    using assms spec_item_of_key_str_int [of i] unfolding catalog_agrees_def by blast
  show ?thesis
    unfolding is_final_item_def spec_final_def c
    by (cases "icat i")
       (auto simp: truthy_def get_list_def no_upgrade_target_def has_boots_tag_def
          split: option.splits)
qed

lemma set_first_occurrences: "set (first_occurrences xs) = set xs"
  by (induction xs) auto

lemma first_occurrences_map:
  "inj f \<Longrightarrow> first_occurrences (map f xs) = map f (first_occurrences xs)"
proof (induction xs)
  case Nil
  then show ?case by simp
next
  case (Cons x xs)
  have "filter (\<lambda>y. y \<noteq> f x) (map f ys) = map f (filter (\<lambda>y. y \<noteq> x) ys)" for ys
    using Cons.prems by (induction ys) (auto dest: injD)
  then show ?case using Cons by simp
qed

lemma inj_str_int: "inj str_int"
  by (rule injI) (rule str_int_inj)

lemma purchased_items_all:
  "\<forall>ev \<in> set (item_purchases p). etype ev = ITEM_PURCHASED \<Longrightarrow>
   purchased_items p = map itemId (item_purchases p)"
  by (simp add: purchased_items_def)

lemma build_sequence_of_spec_sequence:
  assumes a: "catalog_agrees cat icat"
    and p: "\<forall>ev \<in> set (item_purchases p). etype ev = ITEM_PURCHASED"
  shows "build_sequence_of cat p = map key_of_node (spec_sequence icat p)"
proof -
  let ?ids = "map itemId (item_purchases p)"
  have "filter (\<lambda>k. is_final_item k cat) (map (\<lambda>pu. str_int (itemId pu)) (item_purchases p)) =
        map str_int (filter (spec_final icat) ?ids)"
    by (simp add: filter_map comp_def is_final_item_spec_final [OF a])
  then have "build_sequence_of cat p =
      ''START'' # map str_int (first_occurrences (filter (spec_final icat) ?ids))"
    by (simp add: build_sequence_of_first_occurrences first_occurrences_map [OF inj_str_int])
  then show ?thesis
    by (simp add: spec_sequence_def purchased_items_all [OF p] comp_def)
qed

lemma find_filter: "List.find P xs = (case filter P xs of [] \<Rightarrow> None | x # rest \<Rightarrow> Some x)"
  by (induction xs) auto

lemma enemy_champ_of_spec_label: "enemy_champ_of m p = spec_label m p"
  by (simp add: enemy_champ_of_def find_opponent_def spec_label_def spec_opponents_def find_filter
      split: list.splits)

lemma valid_lanes_spec_lanes: "set valid_lanes = spec_lanes"
  by (auto simp: valid_lanes_def spec_lanes_def)

lemma reinforce_calls_observations:
  assumes a: "catalog_agrees cat icat" and p: "purchases_only files"
  shows "reinforce_calls cat files = map call_of_observation (labelled_observations icat files)"
proof -
  have one: "map (\<lambda>p. (championName p, enemy_champ_of m p, win p, build_sequence_of cat p))
               (filter (\<lambda>p. lane p \<in> set valid_lanes) ps) =
             map call_of_observation (concat (map (labelled_scan_participant icat m) ps))"
    if "\<forall>q \<in> set ps. \<forall>ev \<in> set (item_purchases q). etype ev = ITEM_PURCHASED" for m ps
    using that
  proof (induction ps)
    case Nil
    then show ?case by simp
  next
    case (Cons q ps)
    have "build_sequence_of cat q = map key_of_node (spec_sequence icat q)"
      using Cons.prems by (intro build_sequence_of_spec_sequence [OF a]) simp
    then show ?case
      using Cons
      by (simp add: labelled_scan_participant_def call_of_observation_def
          enemy_champ_of_spec_label valid_lanes_spec_lanes)
  qed
  have "concat (map (\<lambda>m. map (\<lambda>p. (championName p, enemy_champ_of m p, win p,
                                    build_sequence_of cat p))
                          (filter (\<lambda>p. lane p \<in> set valid_lanes) m)) fs) =
        map call_of_observation
          (concat (map (\<lambda>m. concat (map (labelled_scan_participant icat m) m)) fs))"
    if "purchases_only fs" for fs
    using that
  proof (induction fs)
    case Nil
    then show ?case by simp
  next
    case (Cons m fs)
    have "purchases_only fs" using Cons.prems by (simp add: purchases_only_def)
    moreover have "\<forall>q \<in> set m. \<forall>ev \<in> set (item_purchases q). etype ev = ITEM_PURCHASED"
      using Cons.prems by (simp add: purchases_only_def)
    ultimately show ?case using Cons.IH one [of m m] by simp
  qed
  then show ?thesis using p by (simp add: reinforce_calls_def labelled_observations_def)
qed

lemma follows_map:
  "inj f \<Longrightarrow> follows (f a) (f b) (map f s) = follows a b s"
proof (induction a b s rule: follows.induct)
  case (1 a b x y rest)
  then show ?case by (auto dest: injD)
qed simp_all

lemma follows_members: "follows a b s \<Longrightarrow> a \<in> set s \<and> b \<in> set s"
proof (induction a b s rule: follows.induct)
  case (1 a b x y rest)
  then show ?case by auto
qed simp_all

lemma inj_key_of_node: "inj key_of_node"
  by (rule injI) (rule key_of_node_inj)

section \<open>Training counts transitions\<close>

lemma train_participants_obs:
  "fold (train_participant cat m) ps mem =
   fold learn_obs (map (\<lambda>p. (championName p, enemy_champ_of m p, win p, build_sequence_of cat p))
                     (filter (\<lambda>p. lane p \<in> set valid_lanes) ps)) mem"
  by (induction ps arbitrary: mem) (simp_all add: train_participant_def learn_obs_def)

lemma train_files_obs:
  "train_files cat files mem = fold learn_obs (reinforce_calls cat files) mem"
  unfolding train_files_def reinforce_calls_def
  by (induction files arbitrary: mem) (simp_all add: train_match_def train_participants_obs)

lemma reinforce_calls_distinct:
  "(c, e, w, s) \<in> set (reinforce_calls cat files) \<Longrightarrow> distinct (tl s)"
  by (auto simp: reinforce_calls_def build_sequence_of_distinct)

lemma fold_learn_general_val:
  "(\<forall>ob \<in> set obs. distinct (tl (snd (snd (snd ob))))) \<Longrightarrow>
   val (general_edge (snd (fold learn_obs obs mem)) c a b) =
     val (general_edge (snd mem) c a b) +
     3 * of_nat (length (filter (\<lambda>(c', e', w, s). c' = c \<and> w = True \<and> follows a b s) obs)) +
     1 / 2 * of_nat (length (filter (\<lambda>(c', e', w, s). c' = c \<and> w = False \<and> follows a b s) obs))"
proof (induction obs arbitrary: mem)
  case Nil
  then show ?case by simp
next
  case (Cons ob obs)
  obtain c' e' w s where ob: "ob = (c', e', w, s)" by (cases ob) auto
  have d: "distinct (tl s)" using Cons.prems ob by simp
  have ih: "\<forall>ob \<in> set obs. distinct (tl (snd (snd (snd ob))))" using Cons.prems by simp
  show ?case
    using Cons.IH [OF ih, of "learn_obs ob mem"] reinforce_general_val [OF d, where c = c' and e = e' and w = "weight_of w" and mem = mem and c' = c and a = a and b = b]
    by (simp add: ob learn_obs_def weight_of_def algebra_simps)
qed

lemma fold_learn_general_None:
  "general_edge (snd (fold learn_obs obs mem)) c a b = None \<longleftrightarrow>
     general_edge (snd mem) c a b = None \<and>
     filter (\<lambda>(c', e', w, s). c' = c \<and> follows a b s) obs = []"
proof (induction obs arbitrary: mem)
  case Nil
  then show ?case by simp
next
  case (Cons ob obs)
  obtain c' e' w s where ob: "ob = (c', e', w, s)" by (cases ob) auto
  show ?case
    using Cons.IH [of "learn_obs ob mem"] reinforce_general_None [where c = c' and e = e' and w = "weight_of w" and s = s and mem = mem and c' = c and a = a and b = b]
    by (auto simp: ob learn_obs_def)
qed


lemma fold_learn_specific_val:
  "(\<forall>ob \<in> set obs. distinct (tl (snd (snd (snd ob))))) \<Longrightarrow>
   val (specific_edge (fst (fold learn_obs obs mem)) c e a b) =
     val (specific_edge (fst mem) c e a b) +
     3 * of_nat (length (filter (\<lambda>(c', e', w, s). c' = c \<and> e' = e \<and> w = True \<and> follows a b s) obs)) +
     1 / 2 * of_nat (length (filter (\<lambda>(c', e', w, s). c' = c \<and> e' = e \<and> w = False \<and> follows a b s) obs))"
proof (induction obs arbitrary: mem)
  case Nil
  then show ?case by simp
next
  case (Cons ob obs)
  obtain c' e' w s where ob: "ob = (c', e', w, s)" by (cases ob) auto
  have d: "distinct (tl s)" using Cons.prems ob by simp
  have ih: "\<forall>ob \<in> set obs. distinct (tl (snd (snd (snd ob))))" using Cons.prems by simp
  show ?case
    using Cons.IH [OF ih, of "learn_obs ob mem"]
      reinforce_specific_val [OF d, where c = c' and e = e' and w = "weight_of w" and mem = mem
        and c' = c and e' = e and a = a and b = b]
    by (simp add: ob learn_obs_def weight_of_def algebra_simps)
qed

lemma fold_learn_specific_None:
  "specific_edge (fst (fold learn_obs obs mem)) c e a b = None \<longleftrightarrow>
     specific_edge (fst mem) c e a b = None \<and>
     filter (\<lambda>(c', e', w, s). c' = c \<and> e' = e \<and> follows a b s) obs = []"
proof (induction obs arbitrary: mem)
  case Nil
  then show ?case by simp
next
  case (Cons ob obs)
  obtain c' e' w s where ob: "ob = (c', e', w, s)" by (cases ob) auto
  show ?case
    using Cons.IH [of "learn_obs ob mem"]
      reinforce_specific_None [where c = c' and e = e' and w = "weight_of w" and s = s
        and mem = mem and c' = c and e' = e and a = a and b = b]
    by (auto simp: ob learn_obs_def)
qed

lemma filter_outcomes_empty:
  "length (filter (\<lambda>(c', e', w, s). P c' e' s \<and> w = True \<and> Q s) obs) +
   length (filter (\<lambda>(c', e', w, s). P c' e' s \<and> w = False \<and> Q s) obs) = 0 \<longleftrightarrow>
   filter (\<lambda>(c', e', w, s). P c' e' s \<and> Q s) obs = []"
  by (induction obs) auto

lemma option_by_val:
  "(x = None \<longleftrightarrow> P) \<Longrightarrow> val x = v \<Longrightarrow> x = (if P then None else Some v)"
  by (cases x) (auto simp: val_def)

lemma trained_memory:
  "general_memory (train files (init_advisor cat)) = snd (train_files cat files ([], []))"
  "specific_memory (train files (init_advisor cat)) = fst (train_files cat files ([], []))"
  "item_data (train files (init_advisor cat)) = cat"
  by (simp_all add: train_def init_advisor_def split: prod.splits)

lemma trained_edges_by_calls:
  "general_edge (general_memory (train files (init_advisor cat))) c a b =
     spec_weight
       (length (filter (\<lambda>(c', e', w, s). c' = c \<and> w = True \<and> follows a b s)
                  (reinforce_calls cat files)))
       (length (filter (\<lambda>(c', e', w, s). c' = c \<and> w = False \<and> follows a b s)
                  (reinforce_calls cat files)))"
  "specific_edge (specific_memory (train files (init_advisor cat))) c e a b =
     spec_weight
       (length (filter (\<lambda>(c', e', w, s). c' = c \<and> e' = e \<and> w = True \<and> follows a b s)
                  (reinforce_calls cat files)))
       (length (filter (\<lambda>(c', e', w, s). c' = c \<and> e' = e \<and> w = False \<and> follows a b s)
                  (reinforce_calls cat files)))"
proof -
  let ?obs = "reinforce_calls cat files"
  have d: "\<forall>ob \<in> set ?obs. distinct (tl (snd (snd (snd ob))))"
    using reinforce_calls_distinct by fastforce
  let ?g = "general_edge (snd (fold learn_obs ?obs ([], []))) c a b"
  let ?s = "specific_edge (fst (fold learn_obs ?obs ([], []))) c e a b"
  let ?gw = "length (filter (\<lambda>(c', e', w, s). c' = c \<and> w = True \<and> follows a b s) ?obs)"
  let ?gl = "length (filter (\<lambda>(c', e', w, s). c' = c \<and> w = False \<and> follows a b s) ?obs)"
  let ?sw = "length (filter (\<lambda>(c', e', w, s). c' = c \<and> e' = e \<and> w = True \<and> follows a b s) ?obs)"
  let ?sl = "length (filter (\<lambda>(c', e', w, s). c' = c \<and> e' = e \<and> w = False \<and> follows a b s) ?obs)"
  have gv: "val ?g = 3 * of_nat ?gw + 1 / 2 * of_nat ?gl"
    using fold_learn_general_val [OF d, of "([], [])" c a b]
    by (simp add: general_edge_def val_def)
  have gn: "?g = None \<longleftrightarrow> ?gw + ?gl = 0"
    using fold_learn_general_None [of ?obs "([], [])" c a b]
      filter_outcomes_empty [of "\<lambda>c' e' s. c' = c" "follows a b" ?obs]
    by (simp add: general_edge_def)
  have sv: "val ?s = 3 * of_nat ?sw + 1 / 2 * of_nat ?sl"
    using fold_learn_specific_val [OF d, of "([], [])" c e a b]
    by (simp add: specific_edge_def val_def)
  have sn: "?s = None \<longleftrightarrow> ?sw + ?sl = 0"
    using fold_learn_specific_None [of ?obs "([], [])" c e a b]
      filter_outcomes_empty [of "\<lambda>c' e' s. c' = c \<and> e' = e" "follows a b" ?obs]
    by (simp add: specific_edge_def conj_assoc)
  show "general_edge (general_memory (train files (init_advisor cat))) c a b = spec_weight ?gw ?gl"
    unfolding spec_weight_def trained_memory train_files_obs
    by (rule option_by_val [OF gn gv])
  show "specific_edge (specific_memory (train files (init_advisor cat))) c e a b = spec_weight ?sw ?sl"
    unfolding spec_weight_def trained_memory train_files_obs
    by (rule option_by_val [OF sn sv])
qed

lemma count_calls_general:
  "length (filter (\<lambda>(c', e', w, s). c' = c \<and> w = out \<and> follows (key_of_node a) (key_of_node b) s)
             (map call_of_observation obs)) =
   count_general obs out c a b"
  unfolding count_general_def
  by (induction obs) (auto simp: call_of_observation_def follows_map [OF inj_key_of_node])

lemma count_calls_specific:
  "length (filter (\<lambda>(c', e', w, s). c' = c \<and> e' = e \<and> w = out \<and>
                      follows (key_of_node a) (key_of_node b) s)
             (map call_of_observation obs)) =
   count_specific obs out c e a b"
  unfolding count_specific_def
  by (induction obs) (auto simp: call_of_observation_def follows_map [OF inj_key_of_node])

lemma follows_keys_denote:
  assumes "follows ka kb (map key_of_node s)"
  shows "spec_node_of_key ka \<noteq> None \<and> spec_node_of_key kb \<noteq> None"
proof -
  have "ka \<in> key_of_node ` set s" "kb \<in> key_of_node ` set s"
    using follows_members [OF assms] by simp_all
  then show ?thesis by (auto simp: spec_node_of_key_key_of_node)
qed

lemma no_calls_for_other_keys:
  "spec_node_of_key ka = None \<or> spec_node_of_key kb = None \<Longrightarrow>
   filter (\<lambda>(c', e', w, s). P c' e' w \<and> follows ka kb s) (map call_of_observation obs) = []"
  by (induction obs) (auto simp: call_of_observation_def dest: follows_keys_denote)

lemma spec_weight_none: "spec_weight 0 0 = None"
  by (simp add: spec_weight_def)

lemma labelled_observations_opposed:
  assumes "\<forall>m \<in> set files. \<forall>p \<in> set m. lane p \<in> spec_lanes \<longrightarrow> spec_opponents m p \<noteq> []"
  shows "labelled_observations icat files = spec_observations icat files"
proof -
  have one: "labelled_scan_participant icat m p = spec_scan_participant icat m p"
    if "lane p \<in> spec_lanes \<longrightarrow> spec_opponents m p \<noteq> []" for m p
    using that
    by (auto simp: labelled_scan_participant_def spec_scan_participant_def spec_label_def
        split: list.splits)
  have two: "concat (map (labelled_scan_participant icat m) m) =
             concat (map (spec_scan_participant icat m) m)"
    if "m \<in> set files" for m
  proof -
    have "map (labelled_scan_participant icat m) m = map (spec_scan_participant icat m) m"
      using assms that by (intro map_cong refl one) auto
    then show ?thesis by (rule arg_cong)
  qed
  have "map (\<lambda>m. concat (map (labelled_scan_participant icat m) m)) files =
        map (\<lambda>m. concat (map (spec_scan_participant icat m) m)) files"
    by (intro map_cong refl two)
  then show ?thesis
    unfolding labelled_observations_def spec_observations_def by (rule arg_cong)
qed

lemma str_int_eq_iff: "str_int i = str_int j \<longleftrightarrow> i = j"
  using str_int_inj by auto

lemma scenario_catalog_agrees: "catalog_agrees scenario_catalog scenario_items"
  unfolding catalog_agrees_def
proof (intro allI impI)
  fix k i
  assume "spec_item_of_key k = Some i"
  then have k: "k = str_int i" by (rule spec_item_of_key_canonical)
  show "scenario_catalog k = scenario_items i"
    unfolding k scenario_catalog_def scenario_items_def str_int_examples [symmetric]
    by (simp add: str_int_eq_iff)
qed

lemma scenario_purchases_only:
  "purchases_only scenario_files" "purchases_only [[lone_garen]]"
  by (simp_all add: purchases_only_def scenario_files_def garen_a_def garen_b_def darius_a_def
      darius_b_def lone_garen_def buy_def)

lemma scenario_spec_final:
  "spec_final scenario_items 3047" "spec_final scenario_items 3071"
  "\<not> spec_final scenario_items 1036" "spec_final scenario_items 3078"
  by (simp_all add: spec_final_def scenario_items_def no_upgrade_target_def has_boots_tag_def)

lemma scenario_labelled_observations:
  "labelled_observations scenario_items scenario_files =
     [(''Garen'', ''Darius'', True, [Start, Item 3071, Item 3047]),
      (''Darius'', ''Garen'', False, [Start]),
      (''Darius'', ''Garen'', True, [Start]),
      (''Garen'', ''Darius'', False, [Start, Item 3071, Item 3078])]"
  by (simp add: labelled_observations_def labelled_scan_participant_def spec_label_def
      spec_opponents_def spec_sequence_def purchased_items_def spec_lanes_def scenario_files_def
      garen_a_def garen_b_def darius_a_def darius_b_def buy_def scenario_spec_final)

lemma scenario_keys:
  "spec_node_of_key ''START'' = Some Start"
  "spec_node_of_key ''3071'' = Some (Item 3071)"
  "spec_node_of_key ''3047'' = Some (Item 3047)"
  by (simp_all add: spec_node_of_key_def spec_item_of_key_def spec_nat_of_key_def
      digit_value_def)

text \<open>
  Claim C1, as stated, counts the build sequences the corpus scanner of the specification
  hands on, and that scanner skips a participant without direct opponent. The trainer does
  not: after training on the match whose only participant is Garen, who wins and buys one
  final item, the general table holds the edge from \<^verbatim>\<open>START\<close> to that item with weight
  3, where the claim counts no sequence at all.
\<close>

theorem train_counts_unopposed_counterexample:
  "general_edge (general_memory (train [[lone_garen]] (init_advisor scenario_catalog)))
     ''Garen'' ''START'' ''3071'' = Some 3 \<and>
   spec_node_of_key ''START'' = Some Start \<and>
   spec_node_of_key ''3071'' = Some (Item 3071) \<and>
   spec_observations scenario_items [[lone_garen]] = [] \<and>
   spec_weight
     (count_general (spec_observations scenario_items [[lone_garen]]) True ''Garen'' Start (Item 3071))
     (count_general (spec_observations scenario_items [[lone_garen]]) False ''Garen'' Start (Item 3071))
     = None"
proof -
  have o: "spec_observations scenario_items [[lone_garen]] = []"
    by (simp add: spec_observations_def spec_scan_participant_def spec_opponents_def)
  have g: "general_memory (train [[lone_garen]] (init_advisor scenario_catalog)) =
     [(''Garen'', [(''START'', [(''3071'', 3)])])]"
    by (simp add: train_def train_files_def train_match_def
      train_participant_def init_advisor_def valid_lanes_def
      enemy_champ_of_def find_opponent_def build_sequence_of_def buy_def str_int_examples
      scenario_final weight_of_def add_specific_def add_general_def dd_modify_def lone_garen_def)
  show ?thesis
    by (simp add: o g scenario_keys general_edge_def edge_of_def count_general_def spec_weight_def)
qed

text \<open>
  Claim C1, amended. Take one training pass from the empty tables over a corpus that holds
  purchases only, with a catalog document that agrees with the catalog of the
  specification. Then for every champion and every pair of keys, the general table stores
  an edge only if both keys denote nodes, and for keys that denote the nodes \<open>a\<close> and
  \<open>b\<close> the stored weight is exactly 3 times the number of winning build sequences of that
  champion in which \<open>b\<close> immediately follows \<open>a\<close>, plus one half times the number of
  such losing sequences; the edge is absent when there is no such sequence. The sequences
  counted are those of all participants in one of the five lanes, with or without direct
  opponent. The same holds in the specific table for every opponent label, where a
  participant without direct opponent counts under the label \<^verbatim>\<open>Unknown\<close>. Every build
  sequence starts with \<^verbatim>\<open>START\<close>, so the transition from \<^verbatim>\<open>START\<close> to the first
  final item is included. Nothing is said here about events that are not purchases.
\<close>

theorem train_edge_weights_purchases:
  assumes a: "catalog_agrees cat icat" and p: "purchases_only files"
  shows "general_edge (general_memory (train files (init_advisor cat))) c ka kb =
           (case spec_node_of_key ka of
              None \<Rightarrow> None
            | Some a \<Rightarrow>
                (case spec_node_of_key kb of
                   None \<Rightarrow> None
                 | Some b \<Rightarrow>
                     spec_weight
                       (count_general (labelled_observations icat files) True c a b)
                       (count_general (labelled_observations icat files) False c a b))) \<and>
         specific_edge (specific_memory (train files (init_advisor cat))) c e ka kb =
           (case spec_node_of_key ka of
              None \<Rightarrow> None
            | Some a \<Rightarrow>
                (case spec_node_of_key kb of
                   None \<Rightarrow> None
                 | Some b \<Rightarrow>
                     spec_weight
                       (count_specific (labelled_observations icat files) True c e a b)
                       (count_specific (labelled_observations icat files) False c e a b)))"
proof (cases "spec_node_of_key ka = None \<or> spec_node_of_key kb = None")
  case True
  note calls = reinforce_calls_observations [OF a p]
  have g: "general_edge (general_memory (train files (init_advisor cat))) c ka kb = None"
    unfolding trained_edges_by_calls calls
    using no_calls_for_other_keys [OF True, of "\<lambda>c' e' w. c' = c \<and> w = True"]
      no_calls_for_other_keys [OF True, of "\<lambda>c' e' w. c' = c \<and> w = False"]
    by (simp add: spec_weight_none conj_assoc)
  have s: "specific_edge (specific_memory (train files (init_advisor cat))) c e ka kb = None"
    unfolding trained_edges_by_calls calls
    using no_calls_for_other_keys [OF True, of "\<lambda>c' e' w. c' = c \<and> e' = e \<and> w = True"]
      no_calls_for_other_keys [OF True, of "\<lambda>c' e' w. c' = c \<and> e' = e \<and> w = False"]
    by (simp add: spec_weight_none conj_assoc)
  show ?thesis using True g s by (auto split: option.splits)
next
  case False
  then obtain na nb where n: "spec_node_of_key ka = Some na" "spec_node_of_key kb = Some nb"
    by auto
  have k: "ka = key_of_node na" "kb = key_of_node nb"
    using n by (simp_all add: spec_node_of_key_canonical)
  note calls = reinforce_calls_observations [OF a p]
  show ?thesis
    unfolding trained_edges_by_calls calls n option.case
    unfolding k count_calls_general count_calls_specific
    by simp
qed

theorem train_edge_weights_purchases_witness:
  "catalog_agrees scenario_catalog scenario_items \<and> purchases_only scenario_files \<and>
   spec_node_of_key ''START'' = Some Start \<and> spec_node_of_key ''3071'' = Some (Item 3071) \<and>
   count_general (labelled_observations scenario_items scenario_files) True
     ''Garen'' Start (Item 3071) = 1 \<and>
   count_general (labelled_observations scenario_items scenario_files) False
     ''Garen'' Start (Item 3071) = 1 \<and>
   general_edge (general_memory (train scenario_files (init_advisor scenario_catalog)))
     ''Garen'' ''START'' ''3071'' = Some (7 / 2) \<and>
   specific_edge (specific_memory (train scenario_files (init_advisor scenario_catalog)))
     ''Garen'' ''Darius'' ''START'' ''3071'' = Some (7 / 2)"
proof -
  note t = train_edge_weights_purchases [OF scenario_catalog_agrees scenario_purchases_only(1),
      of "''Garen''" "''START''" "''3071''" "''Darius''"]
  have c: "count_general (labelled_observations scenario_items scenario_files) True
             ''Garen'' Start (Item 3071) = 1"
    "count_general (labelled_observations scenario_items scenario_files) False
             ''Garen'' Start (Item 3071) = 1"
    "count_specific (labelled_observations scenario_items scenario_files) True
             ''Garen'' ''Darius'' Start (Item 3071) = 1"
    "count_specific (labelled_observations scenario_items scenario_files) False
             ''Garen'' ''Darius'' Start (Item 3071) = 1"
    by (simp_all add: scenario_labelled_observations count_general_def count_specific_def)
  have w: "spec_weight (Suc 0) (Suc 0) = Some (7 / 2)" by (simp add: spec_weight_def)
  have g: "general_edge (general_memory (train scenario_files (init_advisor scenario_catalog)))
     ''Garen'' ''START'' ''3071'' = Some (7 / 2)"
    using conjunct1 [OF t] by (simp add: scenario_keys c w)
  have s: "specific_edge (specific_memory (train scenario_files (init_advisor scenario_catalog)))
     ''Garen'' ''Darius'' ''START'' ''3071'' = Some (7 / 2)"
    using conjunct2 [OF t] by (simp add: scenario_keys c w)
  show ?thesis
    by (intro conjI scenario_catalog_agrees scenario_purchases_only(1) scenario_keys(1)
        scenario_keys(2) c(1) c(2) g s)
qed

section \<open>The greedy choice\<close>

lemma max_from_mem: "max_from best rest \<in> set (best # rest)"
  by (induction rest arbitrary: best) (auto split: if_splits)

lemma max_from_start_le: "snd best \<le> snd (max_from best rest)"
proof (induction rest arbitrary: best)
  case Nil
  then show ?case by simp
next
  case (Cons x rest)
  show ?case
    using Cons.IH [of "if snd best < snd x then x else best"]
    by (auto split: if_splits)
qed

lemma max_from_ge: "kv \<in> set (best # rest) \<Longrightarrow> snd kv \<le> snd (max_from best rest)"
proof (induction rest arbitrary: best)
  case Nil
  then show ?case by simp
next
  case (Cons x rest)
  let ?b = "if snd best < snd x then x else best"
  have mono: "snd ?b \<le> snd (max_from ?b rest)" by (rule max_from_start_le)
  consider "kv = best" | "kv = x" | "kv \<in> set rest" using Cons.prems by auto
  then show ?case
  proof cases
    case 1
    then show ?thesis using mono by (auto split: if_splits)
  next
    case 2
    then show ?thesis using mono by (auto split: if_splits)
  next
    case 3
    then show ?thesis using Cons.IH [of ?b] by simp
  qed
qed

lemma find_sorted_first:
  assumes "List.find P (sort_key f xs) = Some x"
  shows "P x \<and> x \<in> set xs \<and> (\<forall>y \<in> set xs. P y \<longrightarrow> f x \<le> f y)"
proof -
  let ?ys = "sort_key f xs"
  obtain i where i: "i < length ?ys" "P (?ys ! i)" "x = ?ys ! i" "\<forall>j<i. \<not> P (?ys ! j)"
    using assms unfolding find_Some_iff by blast
  have srt: "sorted (map f ?ys)" by simp
  have "f x \<le> f y" if y: "y \<in> set xs" "P y" for y
  proof -
    from y have "y \<in> set ?ys" by simp
    then obtain j where j: "j < length ?ys" "?ys ! j = y" by (metis in_set_conv_nth)
    with i(4) y(2) have "i \<le> j" by (meson not_le_imp_less)
    then have "map f ?ys ! i \<le> map f ?ys ! j"
      using srt j(1) by (simp add: sorted_iff_nth_mono del: sorted_sort_key)
    then show ?thesis using i j by simp
  qed
  moreover have "x \<in> set xs" using i(1,3) by (metis nth_mem set_sort)
  ultimately show ?thesis using i by blast
qed

lemma best_unvisitedI:
  "map_of tr cur = Some r \<Longrightarrow> b \<notin> vis \<Longrightarrow> (b, w) \<in> set r \<Longrightarrow>
   (\<And>b' w'. (b', w') \<in> set r \<Longrightarrow> b' \<notin> vis \<Longrightarrow> w' \<le> w) \<Longrightarrow>
   best_unvisited tr cur vis b"
  unfolding best_unvisited_def by (simp only: option.case) blast

lemma choose_next_Some:
  assumes a: "choose_next tr cur vis = Some b"
  shows "best_unvisited tr cur vis b"
proof -
  obtain kv rest where r: "map_of tr cur = Some (kv # rest)"
    using a by (auto simp: choose_next_def split: option.splits list.splits)
  show ?thesis
  proof (cases "fst (max_from kv rest) \<in> vis")
    case False
    then have b: "b = fst (max_from kv rest)" using a r by (simp add: choose_next_def)
    have m: "(b, snd (max_from kv rest)) \<in> set (kv # rest)"
      using max_from_mem [of kv rest] b by simp
    have g: "w' \<le> snd (max_from kv rest)" if "(b', w') \<in> set (kv # rest)" for b' w'
      using max_from_ge [OF that] by simp
    show ?thesis
      using False b by (intro best_unvisitedI [OF r _ m]) (simp_all add: g)
  next
    case True
    then have "\<exists>s. List.find (\<lambda>(item, s). item \<notin> vis) (sorted_opts_of (kv # rest)) = Some (b, s)"
      using a r by (simp add: choose_next_def split: option.splits prod.splits)
    then obtain s where
      f: "List.find (\<lambda>(item, s). item \<notin> vis) (sort_key (\<lambda>x. - snd x) (kv # rest)) = Some (b, s)"
      unfolding sorted_opts_of_def by blast
    note fs = find_sorted_first [OF f]
    have nv: "b \<notin> vis" using fs by simp
    have m: "(b, s) \<in> set (kv # rest)" using fs by blast
    have g: "w' \<le> s" if "(b', w') \<in> set (kv # rest)" "b' \<notin> vis" for b' w'
    proof -
      have "- snd (b, s) \<le> - snd (b', w')" using fs that by blast
      then show ?thesis by simp
    qed
    show ?thesis
      by (rule best_unvisitedI [OF r nv m]) (rule g)
  qed
qed

lemma choose_next_None:
  assumes a: "choose_next tr cur vis = None"
  shows "exhausted tr cur vis"
proof (cases "map_of tr cur")
  case None
  then show ?thesis by (simp add: exhausted_def)
next
  case (Some r)
  show ?thesis
  proof (cases r)
    case Nil
    then show ?thesis using Some by (simp add: exhausted_def)
  next
    case (Cons kv rest)
    have c: "(if fst (max_from kv rest) \<in> vis
         then (case List.find (\<lambda>(item, s). item \<notin> vis) (sorted_opts_of (kv # rest)) of
                None \<Rightarrow> None | Some (item, s) \<Rightarrow> Some item)
         else Some (fst (max_from kv rest))) = None"
      using a Some Cons by (simp add: choose_next_def Let_def)
    then have "List.find (\<lambda>(item, s). item \<notin> vis) (sorted_opts_of (kv # rest)) = None"
      by (simp split: if_splits option.splits prod.splits)
    then have "\<forall>x \<in> set (kv # rest). \<not> (case x of (item, s) \<Rightarrow> item \<notin> vis)"
      unfolding find_None_iff sorted_opts_of_def by (simp only: set_sort) blast
    then have "\<forall>(b, w) \<in> set (kv # rest). b \<in> vis" by blast
    then show ?thesis using Some Cons by (simp only: exhausted_def option.case)
  qed
qed

section \<open>The greedy traversal and the query\<close>

lemma greedy_loop_acc:
  "greedy_loop n tr cur path vis = path @ greedy_loop n tr cur [] vis"
proof (induction n arbitrary: cur path vis)
  case 0
  then show ?case by simp
next
  case (Suc n)
  show ?case
  proof (cases "choose_next tr cur vis")
    case None
    then show ?thesis by simp
  next
    case (Some b)
    show ?thesis
      using Suc.IH [of b "path @ [b]" "insert b vis"] Suc.IH [of b "[b]" "insert b vis"] Some
      by simp
  qed
qed

lemma greedy_loop_step:
  "choose_next tr cur vis = Some b \<Longrightarrow>
   greedy_loop (Suc n) tr cur [] vis = b # greedy_loop n tr b [] (insert b vis)"
  using greedy_loop_acc [of n tr b "[b]" "insert b vis"] by simp

lemma best_unvisited_to_node: "best_unvisited tr cur vis b \<Longrightarrow> b \<in> to_nodes tr"
proof -
  assume a: "best_unvisited tr cur vis b"
  then obtain r where r: "map_of tr cur = Some r"
    by (cases "map_of tr cur") (auto simp: best_unvisited_def)
  then have "b \<in> fst ` set r" using a by (force simp: best_unvisited_def)
  moreover have "(cur, r) \<in> set tr" using r by (rule map_of_SomeD)
  ultimately show ?thesis unfolding to_nodes_def by force
qed

lemma best_unvisited_fresh: "best_unvisited tr cur vis b \<Longrightarrow> b \<notin> vis"
  by (simp add: best_unvisited_def)

lemma greedy_loop_props:
  "length (greedy_loop n tr cur [] vis) \<le> n \<and>
   distinct (greedy_loop n tr cur [] vis) \<and>
   set (greedy_loop n tr cur [] vis) \<inter> vis = {} \<and>
   set (greedy_loop n tr cur [] vis) \<subseteq> to_nodes tr \<and>
   spec_greedy n tr cur vis (greedy_loop n tr cur [] vis)"
proof (induction n arbitrary: cur vis)
  case 0
  then show ?case by simp
next
  case (Suc n)
  show ?case
  proof (cases "choose_next tr cur vis")
    case None
    then show ?thesis using choose_next_None [OF None] by simp
  next
    case (Some b)
    note bu = choose_next_Some [OF Some]
    show ?thesis
      using Suc.IH [of b "insert b vis"] bu best_unvisited_to_node [OF bu]
        best_unvisited_fresh [OF bu]
      by (auto simp: greedy_loop_step [OF Some] simp del: greedy_loop.simps)
  qed
qed

lemma recommend_build_result:
  "fst (recommend_build ai c e) =
     (case selected_table ai c e of
        None \<Rightarrow> None
      | Some [] \<Rightarrow> None
      | Some (t # ts) \<Rightarrow> Some (greedy_loop 6 (t # ts) ''START'' [] {}))"
  by (auto simp: recommend_build_def selected_table_def probe_specific_def dd_getitem_def Let_def
      split: option.splits list.splits prod.splits if_splits)

lemma recommend_build_frame:
  "general_memory (snd (recommend_build ai c e)) = general_memory ai"
  "item_data (snd (recommend_build ai c e)) = item_data ai"
  by (auto simp: recommend_build_def Let_def split: option.splits list.splits prod.splits)

lemma selected_table_mem:
  "selected_table ai c e = Some tr \<Longrightarrow>
   tr \<in> general_tables (general_memory ai) \<union> specific_tables (specific_memory ai)"
  unfolding selected_table_def Let_def general_tables_def specific_tables_def
  by (auto split: option.splits if_splits dest!: map_of_SomeD) force+

section \<open>The printed path\<close>

lemma print_choose_Some:
  assumes a: "print_choose tr cur vis = Some b"
  shows "best_unvisited tr cur vis b"
proof -
  obtain kv rest where r: "map_of tr cur = Some (kv # rest)"
    using a by (auto simp: print_choose_def split: option.splits list.splits)
  have "\<exists>s. List.find (\<lambda>(item, s). item \<notin> vis) (sorted_opts_of (kv # rest)) = Some (b, s)"
    using a r by (simp add: print_choose_def split: option.splits prod.splits if_splits)
  then obtain s where
    f: "List.find (\<lambda>(item, s). item \<notin> vis) (sort_key (\<lambda>x. - snd x) (kv # rest)) = Some (b, s)"
    unfolding sorted_opts_of_def by blast
  note fs = find_sorted_first [OF f]
  have nv: "b \<notin> vis" using fs by simp
  have m: "(b, s) \<in> set (kv # rest)" using fs by blast
  have g: "w' \<le> s" if "(b', w') \<in> set (kv # rest)" "b' \<notin> vis" for b' w'
  proof -
    have "- snd (b, s) \<le> - snd (b', w')" using fs that by blast
    then show ?thesis by simp
  qed
  show ?thesis
    by (rule best_unvisitedI [OF r nv m]) (rule g)
qed

lemma print_loop_acc:
  "print_loop n tr cur printed vis = printed @ print_loop n tr cur [] vis"
proof (induction n arbitrary: cur printed vis)
  case 0
  then show ?case by simp
next
  case (Suc n)
  show ?case
  proof (cases "print_choose tr cur vis")
    case None
    then show ?thesis by simp
  next
    case (Some b)
    show ?thesis
      using Suc.IH [of b "printed @ [b]" "insert b vis"] Suc.IH [of b "[b]" "insert b vis"] Some
      by simp
  qed
qed

lemma print_loop_step:
  "print_choose tr cur vis = Some b \<Longrightarrow>
   print_loop (Suc n) tr cur [] vis = b # print_loop n tr b [] (insert b vis)"
  using print_loop_acc [of n tr b "[b]" "insert b vis"] by simp

lemma print_loop_props:
  "length (print_loop n tr cur [] vis) \<le> n \<and>
   distinct (print_loop n tr cur [] vis) \<and>
   set (print_loop n tr cur [] vis) \<inter> vis = {} \<and>
   set (print_loop n tr cur [] vis) \<subseteq> to_nodes tr"
proof (induction n arbitrary: cur vis)
  case 0
  then show ?case by simp
next
  case (Suc n)
  show ?case
  proof (cases "print_choose tr cur vis")
    case None
    then show ?thesis by simp
  next
    case (Some b)
    note bu = print_choose_Some [OF Some]
    show ?thesis
      using Suc.IH [of b "insert b vis"] best_unvisited_to_node [OF bu]
        best_unvisited_fresh [OF bu]
      by (auto simp: print_loop_step [OF Some] simp del: print_loop.simps)
  qed
qed

section \<open>Bounds of the recommendation\<close>

lemma scenario_recommend:
  "fst (recommend_build scenario_trained ''Garen'' (Some ''Darius'')) = Some [''3071'', ''3047'']"
  "fst (recommend_build scenario_trained ''Garen'' (Some ''Teemo'')) = Some [''3071'', ''3047'']"
  "fst (recommend_build scenario_trained ''Garen'' None) = Some [''3071'', ''3047'']"
  "fst (recommend_build scenario_trained ''Ahri'' (Some ''Zed'')) = None"
  by (simp_all add: recommend_build_result selected_table_def scenario_trained_tables
      choose_next_def sorted_opts_of_def eval_nat_numeral)

lemma scenario_selected:
  "selected_table scenario_trained ''Garen'' (Some ''Darius'') =
     Some [(''START'', [(''3071'', 7 / 2)]), (''3071'', [(''3047'', 3), (''3078'', 1 / 2)])]"
  by (simp add: selected_table_def scenario_trained_tables)

lemma str_int_twin: "str_int 223071 = ''223071''"
  by (simp add: str_int_def str_nat.simps digit_char_def)

lemma twin_trained_tables:
  "general_memory twin_trained =
     [(''Garen'', [(''START'', [(''3071'', 3)]), (''3071'', [(''223071'', 3)])])]"
  "item_data twin_trained = twin_catalog"
  by (simp_all add: twin_trained_def train_def train_files_def train_match_def
      train_participant_def init_advisor_def valid_lanes_def
      enemy_champ_of_def find_opponent_def build_sequence_of_def buy_def str_int_examples
      str_int_twin is_final_item_def twin_catalog_def scenario_catalog_def truthy_def get_list_def
      weight_of_def add_specific_def add_general_def dd_modify_def twin_garen_def Let_def)

lemma twin_recommend:
  "fst (recommend_build twin_trained ''Garen'' None) = Some [''3071'', ''223071'']"
  by (simp add: recommend_build_result selected_table_def twin_trained_tables
      choose_next_def eval_nat_numeral)

text \<open>
  Claim C3, as stated, asks for a list on every query, in which no item name occurs twice.
  Neither holds. For a champion without data the bare \<^verbatim>\<open>return\<close> yields
  \<^verbatim>\<open>None\<close>, so no list of any length is returned. And the visited set holds
  identifiers, not names: with a catalog in which two identifiers carry the same display
  name, after a match in which Garen buys both, the query for Garen returns both
  identifiers, and both resolve to the same name.
\<close>

theorem recommend_build_no_list_counterexample:
  "fst (recommend_build scenario_trained ''Ahri'' (Some ''Zed'')) = None \<and>
   fst (recommend_build twin_trained ''Garen'' None) = Some [''3071'', ''223071''] \<and>
   get_item_name (item_data twin_trained) ''3071'' = ''Black Cleaver'' \<and>
   get_item_name (item_data twin_trained) ''223071'' = ''Black Cleaver''"
  by (simp add: scenario_recommend twin_recommend twin_trained_tables get_item_name_def
      twin_catalog_def scenario_catalog_def)

text \<open>
  Claim C3, amended. For all tables and every query, \<^verbatim>\<open>recommend_build\<close> terminates
  (the model is a total function: the loop runs at most six rounds). It returns
  \<^verbatim>\<open>None\<close> exactly when the selected table is missing or empty. Otherwise it returns a
  list of at most six item identifiers in which no identifier occurs twice; the display
  names of the list repeat only when two of its identifiers share a name. The list is a
  greedy traversal of the selected table, which is then present and not empty: every step
  takes an unvisited successor of the current node whose score is maximal among the
  unvisited successors, and the traversal stops before the sixth item only when the
  current node has no unvisited successor. The identifiers that \<^verbatim>\<open>_print_path\<close> of
  \<^verbatim>\<open>marko.py\<close> prints for a table obey the same bounds.
\<close>

theorem recommend_build_bounded_distinct:
  "(fst (recommend_build ai my_champ enemy_champ) = None \<longleftrightarrow>
      selected_table ai my_champ enemy_champ \<in> {None, Some []}) \<and>
   (\<forall>p. fst (recommend_build ai my_champ enemy_champ) = Some p \<longrightarrow>
      length p \<le> 6 \<and> distinct p \<and>
      (inj_on (get_item_name (item_data ai)) (set p) \<longrightarrow>
         distinct (map (get_item_name (item_data ai)) p)) \<and>
      (\<exists>tr. selected_table ai my_champ enemy_champ = Some tr \<and> tr \<noteq> [] \<and>
            spec_greedy 6 tr ''START'' {} p)) \<and>
   length (print_path printed_table) \<le> 6 \<and> distinct (print_path printed_table)"
proof -
  have pp: "length (print_path printed_table) \<le> 6 \<and> distinct (print_path printed_table)"
    using print_loop_props [of 6 printed_table "''START''" "{}"] by (simp add: print_path_def)
  have none: "fst (recommend_build ai my_champ enemy_champ) = None \<longleftrightarrow>
      selected_table ai my_champ enemy_champ \<in> {None, Some []}"
    by (auto simp: recommend_build_result split: option.splits list.splits)
  have some: "length p \<le> 6 \<and> distinct p \<and>
      (inj_on (get_item_name (item_data ai)) (set p) \<longrightarrow>
         distinct (map (get_item_name (item_data ai)) p)) \<and>
      (\<exists>tr. selected_table ai my_champ enemy_champ = Some tr \<and> tr \<noteq> [] \<and>
            spec_greedy 6 tr ''START'' {} p)"
    if p: "fst (recommend_build ai my_champ enemy_champ) = Some p" for p
  proof -
    obtain tr where tr: "selected_table ai my_champ enemy_champ = Some tr" "tr \<noteq> []"
      and pg: "p = greedy_loop 6 tr ''START'' [] {}"
      using p by (auto simp: recommend_build_result split: option.splits list.splits)
    note props = greedy_loop_props [of 6 tr "''START''" "{}"]
    have l: "length p \<le> 6" and d: "distinct p" and g: "spec_greedy 6 tr ''START'' {} p"
      using props pg by simp_all
    have "distinct (map (get_item_name (item_data ai)) p)"
      if "inj_on (get_item_name (item_data ai)) (set p)"
      using d that by (simp add: distinct_map)
    then show ?thesis using l d g tr by blast
  qed
  show ?thesis using none some pp by blast
qed

theorem recommend_build_bounded_distinct_witness:
  "fst (recommend_build scenario_trained ''Garen'' (Some ''Darius'')) = Some [''3071'', ''3047''] \<and>
   length [''3071'', ''3047''] \<le> (6::nat) \<and> distinct [''3071'', ''3047''] \<and>
   map (get_item_name (item_data scenario_trained)) [''3071'', ''3047''] =
     [''Black Cleaver'', ''Plated Steelcaps''] \<and>
   selected_table scenario_trained ''Garen'' (Some ''Darius'') =
     Some [(''START'', [(''3071'', 7 / 2)]), (''3071'', [(''3047'', 3), (''3078'', 1 / 2)])] \<and>
   spec_greedy 6 [(''START'', [(''3071'', 7 / 2)]), (''3071'', [(''3047'', 3), (''3078'', 1 / 2)])]
     ''START'' {} [''3071'', ''3047'']"
proof -
  note t = recommend_build_bounded_distinct [of scenario_trained "''Garen''" "Some ''Darius''" "[]"]
  have r: "fst (recommend_build scenario_trained ''Garen'' (Some ''Darius'')) = Some [''3071'', ''3047'']"
    by (rule scenario_recommend(1))
  note u = mp [OF spec [OF conjunct1 [OF conjunct2 [OF t]]] r]
  have n: "map (get_item_name (item_data scenario_trained)) [''3071'', ''3047''] =
     [''Black Cleaver'', ''Plated Steelcaps'']"
    by (simp add: scenario_trained_tables get_item_name_def scenario_catalog_def)
  have g: "spec_greedy 6 [(''START'', [(''3071'', 7 / 2)]), (''3071'', [(''3047'', 3), (''3078'', 1 / 2)])]
     ''START'' {} [''3071'', ''3047'']"
    using u by (simp add: scenario_selected)
  show ?thesis
    using r n g scenario_selected by simp
qed

text \<open>
  Claim C4. When the specific table holds, for the champion and the queried opponent, no
  entry whose \<^verbatim>\<open>START\<close> node has an outgoing edge, \<^verbatim>\<open>recommend_build\<close> returns for that
  opponent exactly what it returns for the opponent \<^verbatim>\<open>None\<close>, namely the greedy traversal
  of the champion's entry in the general table: the query falls back to the general table
  and the opponent argument has no influence. This holds in particular for every champion
  that has general data.
\<close>

theorem recommend_build_fallback:
  assumes "\<not> (\<exists>by_enemy sd r. map_of (specific_memory ai) my_champ = Some by_enemy \<and>
              map_of by_enemy enemy_champ = Some sd \<and> map_of sd ''START'' = Some r \<and> r \<noteq> [])"
  shows "fst (recommend_build ai my_champ (Some enemy_champ)) =
           fst (recommend_build ai my_champ None) \<and>
         fst (recommend_build ai my_champ None) =
           (case map_of (general_memory ai) my_champ of
              None \<Rightarrow> None
            | Some [] \<Rightarrow> None
            | Some (t # ts) \<Rightarrow> Some (greedy_loop 6 (t # ts) ''START'' [] {}))"
proof -
  have "selected_table ai my_champ (Some enemy_champ) = selected_table ai my_champ None"
    using assms by (auto simp: selected_table_def Let_def split: option.splits)
  moreover have "selected_table ai my_champ None = map_of (general_memory ai) my_champ"
    by (simp add: selected_table_def)
  ultimately show ?thesis by (simp add: recommend_build_result)
qed

theorem recommend_build_fallback_witness:
  "map_of (general_memory scenario_trained) ''Garen'' \<noteq> None \<and>
   map_of (specific_memory scenario_trained) ''Garen'' =
     Some [(''Darius'', [(''START'', [(''3071'', 7 / 2)]),
                         (''3071'', [(''3047'', 3), (''3078'', 1 / 2)])])] \<and>
   map_of [(''Darius'', [(''START'', [(''3071'', 7 / 2)]),
                         (''3071'', [(''3047'', 3), (''3078'', 1 / 2 :: rat)])])] ''Teemo'' = None \<and>
   fst (recommend_build scenario_trained ''Garen'' (Some ''Teemo'')) =
   fst (recommend_build scenario_trained ''Garen'' None) \<and>
   fst (recommend_build scenario_trained ''Garen'' None) = Some [''3071'', ''3047'']"
proof -
  have h: "\<not> (\<exists>by_enemy sd r. map_of (specific_memory scenario_trained) ''Garen'' = Some by_enemy \<and>
          map_of by_enemy ''Teemo'' = Some sd \<and> map_of sd ''START'' = Some r \<and> r \<noteq> [])"
    by (simp add: scenario_trained_tables)
  show ?thesis
    using h recommend_build_fallback [OF h]
    by (simp add: scenario_trained_tables scenario_recommend)
qed

section \<open>What a query returns and what it writes\<close>

text \<open>
  Claim C7, as stated, fails twice on the scenario: the list returned for Garen holds the
  raw identifiers, not the display names the catalog resolves them to, and the query for a
  champion without data returns \<^verbatim>\<open>None\<close>, not the empty list.
\<close>

theorem recommend_build_names_counterexample:
  "fst (recommend_build scenario_trained ''Garen'' None) = Some [''3071'', ''3047''] \<and>
   map (get_item_name (item_data scenario_trained)) [''3071'', ''3047''] =
     [''Black Cleaver'', ''Plated Steelcaps''] \<and>
   fst (recommend_build scenario_trained ''Garen'' None) \<noteq>
     Some (map (get_item_name (item_data scenario_trained)) [''3071'', ''3047'']) \<and>
   fst (recommend_build scenario_trained ''Ahri'' None) \<noteq> Some []"
  by (simp add: recommend_build_result selected_table_def scenario_trained_tables
      choose_next_def sorted_opts_of_def eval_nat_numeral get_item_name_def scenario_catalog_def)

text \<open>
  Claim C7, amended. For every query \<^verbatim>\<open>recommend_build\<close> raises nothing and returns
  either \<^verbatim>\<open>None\<close>, exactly when the table selected for the champion is missing or empty,
  or the list of the chosen raw item identifiers, each a to-node key of the selected table.
  Display names are what \<^verbatim>\<open>get_item_name\<close> resolves an identifier to: the name of its
  catalog entry, and the placeholder \<^verbatim>\<open>ID\<close> followed by the raw identifier when the
  catalog has no entry for it.
\<close>

theorem recommend_build_returns_identifiers:
  "(fst (recommend_build ai my_champ enemy_champ) = None \<longleftrightarrow>
      selected_table ai my_champ enemy_champ \<in> {None, Some []}) \<and>
   (\<forall>p. fst (recommend_build ai my_champ enemy_champ) = Some p \<longrightarrow>
      (\<exists>tr. selected_table ai my_champ enemy_champ = Some tr \<and> set p \<subseteq> to_nodes tr)) \<and>
   (\<forall>i. item_data ai i = None \<longrightarrow> get_item_name (item_data ai) i = ''ID '' @ i) \<and>
   (\<forall>i info n. item_data ai i = Some info \<and> name info = Some n \<longrightarrow>
      get_item_name (item_data ai) i = n)"
proof -
  have "set (greedy_loop 6 tr ''START'' [] {}) \<subseteq> to_nodes tr" for tr
    using greedy_loop_props [of 6 tr "''START''" "{}"] by simp
  then show ?thesis
    by (auto simp: recommend_build_result get_item_name_def split: option.splits list.splits)
qed

theorem recommend_build_returns_identifiers_witness:
  "fst (recommend_build scenario_trained ''Garen'' (Some ''Darius'')) = Some [''3071'', ''3047''] \<and>
   selected_table scenario_trained ''Garen'' (Some ''Darius'') =
     Some [(''START'', [(''3071'', 7 / 2)]), (''3071'', [(''3047'', 3), (''3078'', 1 / 2)])] \<and>
   set [''3071'', ''3047''] \<subseteq>
     to_nodes [(''START'', [(''3071'', 7 / 2)]), (''3071'', [(''3047'', 3), (''3078'', 1 / 2)])] \<and>
   item_data scenario_trained ''9999'' = None \<and>
   get_item_name (item_data scenario_trained) ''9999'' = ''ID 9999'' \<and>
   get_item_name (item_data scenario_trained) ''3071'' = ''Black Cleaver'' \<and>
   fst (recommend_build scenario_trained ''Ahri'' (Some ''Zed'')) = None"
  using recommend_build_returns_identifiers [of scenario_trained "''Garen''" "Some ''Darius''"]
  by (simp add: scenario_recommend scenario_selected scenario_trained_tables scenario_catalog_def
      get_item_name_def)

lemma recommend_build_inserts_champion:
  assumes "map_of (specific_memory ai) my_champ = None"
  shows "specific_memory (snd (recommend_build ai my_champ enemy_champ)) =
           specific_memory ai @ [(my_champ, [])]"
proof -
  have "AList.update my_champ [] (specific_memory ai @ [(my_champ, [])]) =
          specific_memory ai @ [(my_champ, [])]"
    using assms by (intro update_triv) (simp add: map_add_def)
  then show ?thesis
    using assms
    by (auto simp: recommend_build_def dd_getitem_def probe_specific_def Let_def
        split: option.splits list.splits prod.splits)
qed

text \<open>
  Claim C8 says that a query leaves both tables, key sets included, exactly as they were.
  The general table and the catalog are indeed never written. The specific table is: on
  the trained scenario, a query for a champion that never occurred adds that champion as a
  new key with an empty entry, because \<^verbatim>\<open>self.specific_memory[my_champ]\<close> is a subscript
  read of a \<^verbatim>\<open>defaultdict\<close>.
\<close>

theorem recommend_build_mutates_specific_memory:
  "fst ` set (specific_memory scenario_trained) = {''Garen''} \<and>
   specific_memory (snd (recommend_build scenario_trained ''Ahri'' (Some ''Zed''))) =
     specific_memory scenario_trained @ [(''Ahri'', [])] \<and>
   fst ` set (specific_memory (snd (recommend_build scenario_trained ''Ahri'' (Some ''Zed'')))) =
     {''Garen'', ''Ahri''} \<and>
   specific_memory (snd (recommend_build scenario_trained ''Ahri'' (Some ''Zed''))) \<noteq>
     specific_memory scenario_trained"
proof -
  have "map_of (specific_memory scenario_trained) ''Ahri'' = None"
    by (simp add: scenario_trained_tables)
  from recommend_build_inserts_champion [OF this, of "Some ''Zed''"]
  show ?thesis by (auto simp: scenario_trained_tables)
qed

lemma load_brain_no_snapshot:
  "load_brain NoFile self = (False, self)" "load_brain Unreadable self = (False, self)"
  by (simp_all add: load_brain_def)

lemma load_brain_general_on_failure:
  "fst (load_brain file self) = False \<Longrightarrow>
   brain_general (snd (load_brain file self)) = brain_general self"
  by (auto simp: load_brain_def Let_def split: brain_file.splits option.splits)

text \<open>
  Claim C9 says that every failed load returns \<^verbatim>\<open>False\<close> and leaves both tables as they
  were. \<^verbatim>\<open>load_brain\<close> never raises, and a missing or unreadable file changes nothing;
  but for a snapshot that holds \<^verbatim>\<open>"specific"\<close> and lacks \<^verbatim>\<open>"general"\<close> the call
  returns \<^verbatim>\<open>False\<close> after it has already replaced the specific table.
\<close>

theorem load_brain_partial_overwrite:
  "load_brain (Content (JObj [(''specific'', JObj [])]))
     \<lparr>brain_specific = JObj [(''Garen'', JObj [])], brain_general = JObj [(''Garen'', JObj [])]\<rparr> =
   (False, \<lparr>brain_specific = JObj [], brain_general = JObj [(''Garen'', JObj [])]\<rparr>) \<and>
   snd (load_brain (Content (JObj [(''specific'', JObj [])]))
     \<lparr>brain_specific = JObj [(''Garen'', JObj [])], brain_general = JObj [(''Garen'', JObj [])]\<rparr>) \<noteq>
   \<lparr>brain_specific = JObj [(''Garen'', JObj [])], brain_general = JObj [(''Garen'', JObj [])]\<rparr>"
  by (simp add: load_brain_def)

section \<open>Participants without opponent and events that are not purchases\<close>

text \<open>
  Claim C5, as stated, says that a participant without a lane opponent on the other team
  leaves both tables untouched. A match whose only participant is Garen in the top lane
  has no opponent for him, and training on it fills both tables.
\<close>

theorem train_keeps_unopposed_counterexample:
  "find_opponent [lone_garen] lone_garen = None \<and>
   general_memory (train [[lone_garen]] (init_advisor scenario_catalog)) \<noteq> [] \<and>
   general_memory (train [[lone_garen]] (init_advisor scenario_catalog)) =
     [(''Garen'', [(''START'', [(''3071'', 3)])])] \<and>
   specific_memory (train [[lone_garen]] (init_advisor scenario_catalog)) =
     [(''Garen'', [(''Unknown'', [(''START'', [(''3071'', 3)])])])]"
  by (simp add: train_def train_files_def train_match_def
      train_participant_def init_advisor_def valid_lanes_def
      enemy_champ_of_def find_opponent_def build_sequence_of_def buy_def str_int_examples
      scenario_final weight_of_def add_specific_def add_general_def dd_modify_def lone_garen_def)

lemma follows_keys_contribution:
  "(if follows ka kb (map key_of_node (spec_sequence icat p)) then weight_of (win p) else 0) =
   spec_contribution icat p ka kb"
proof (cases "spec_node_of_key ka = None \<or> spec_node_of_key kb = None")
  case True
  then have "\<not> follows ka kb (map key_of_node (spec_sequence icat p))"
    using follows_keys_denote by blast
  then show ?thesis using True by (auto simp: spec_contribution_def split: option.splits)
next
  case False
  then obtain na nb where n: "spec_node_of_key ka = Some na" "spec_node_of_key kb = Some nb"
    by auto
  have k: "ka = key_of_node na" "kb = key_of_node nb"
    using n by (simp_all add: spec_node_of_key_canonical)
  show ?thesis
    unfolding spec_contribution_def n option.case
    unfolding k follows_map [OF inj_key_of_node]
    by (simp add: weight_of_def)
qed

lemma spec_label_unopposed:
  "\<forall>q \<in> set m. teamId q = teamId p \<or> lane q \<noteq> lane p \<Longrightarrow> spec_label m p = ''Unknown''"
proof -
  assume "\<forall>q \<in> set m. teamId q = teamId p \<or> lane q \<noteq> lane p"
  then have "filter (\<lambda>opp. teamId opp \<noteq> teamId p \<and> lane opp = lane p) m = []"
    by (induction m) auto
  then show ?thesis by (simp add: spec_label_def spec_opponents_def)
qed

lemma scenario_contributions:
  "spec_contribution scenario_items lone_garen ''START'' ''3071'' = 3"
  "spec_contribution scenario_items garen_a ''3071'' ''3047'' = 3"
  "spec_contribution scenario_items garen_b ''START'' ''3071'' = 1 / 2"
  by (simp_all add: spec_contribution_def scenario_keys spec_sequence_def purchased_items_def
      lone_garen_def garen_a_def garen_b_def buy_def scenario_spec_final)

lemma scenario_labels:
  "spec_label [lone_garen] lone_garen = ''Unknown''"
  "spec_label [garen_a, darius_a] garen_a = ''Darius''"
  "spec_label [darius_b, garen_b] garen_b = ''Darius''"
  by (simp_all add: spec_label_def spec_opponents_def garen_a_def darius_a_def garen_b_def
      darius_b_def)

lemma empty_tables_val:
  "val (general_edge [] c a b) = 0"
  "val (specific_edge [] c e a b) = 0"
  by (simp_all add: general_edge_def specific_edge_def val_def)

text \<open>
  Claim C5, amended. The trainer skips a participant exactly when the participant's lane
  is none of the five standard lanes; such a participant leaves both tables as they were.
  A participant in a standard lane is never skipped, with or without direct opponent: the
  build sequence goes through the reinforcement loop under the name of the first other
  participant with a different \<^verbatim>\<open>teamId\<close> and the same lane, or under the label
  \<^verbatim>\<open>Unknown\<close> when there is none. When all events of the participant are purchases and
  the catalog document agrees with the catalog of the specification, every edge of the
  champion's general table, and every edge of the champion's specific table for that
  opponent label, grows by the outcome weight (3 for a win, one half for a loss) if its
  keys denote consecutive nodes of the participant's build sequence, and no other edge
  changes its weight. In particular a participant who has no other participant with a
  different \<^verbatim>\<open>teamId\<close> and the same lane adds the weights under \<^verbatim>\<open>Unknown\<close>.
\<close>

theorem train_unopposed_as_unknown:
  "(lane p \<notin> spec_lanes \<longrightarrow> train_participant cat participants p mem = mem) \<and>
   (lane p \<in> spec_lanes \<longrightarrow>
      train_participant cat participants p mem =
        reinforce (championName p) (spec_label participants p) (if win p then 3 else 1 / 2)
          (build_sequence_of cat p) mem) \<and>
   (lane p \<in> spec_lanes \<and> catalog_agrees cat icat \<and>
    (\<forall>ev \<in> set (item_purchases p). etype ev = ITEM_PURCHASED) \<longrightarrow>
      val (general_edge (snd (train_participant cat participants p mem)) c ka kb) =
        val (general_edge (snd mem) c ka kb) +
        (if c = championName p then spec_contribution icat p ka kb else 0) \<and>
      val (specific_edge (fst (train_participant cat participants p mem)) c e ka kb) =
        val (specific_edge (fst mem) c e ka kb) +
        (if c = championName p \<and> e = spec_label participants p
         then spec_contribution icat p ka kb else 0) \<and>
      ((\<forall>q \<in> set participants. teamId q = teamId p \<or> lane q \<noteq> lane p) \<longrightarrow>
         val (specific_edge (fst (train_participant cat participants p mem))
                (championName p) ''Unknown'' ka kb) =
           val (specific_edge (fst mem) (championName p) ''Unknown'' ka kb) +
           spec_contribution icat p ka kb))"
proof (intro conjI impI)
  assume "lane p \<notin> spec_lanes"
  then show "train_participant cat participants p mem = mem"
    by (simp add: train_participant_def valid_lanes_spec_lanes)
next
  assume "lane p \<in> spec_lanes"
  then show "train_participant cat participants p mem =
        reinforce (championName p) (spec_label participants p) (if win p then 3 else 1 / 2)
          (build_sequence_of cat p) mem"
    by (simp add: train_participant_def valid_lanes_spec_lanes enemy_champ_of_spec_label
        weight_of_def)
next
  assume h: "lane p \<in> spec_lanes \<and> catalog_agrees cat icat \<and>
    (\<forall>ev \<in> set (item_purchases p). etype ev = ITEM_PURCHASED)"
  have t: "train_participant cat participants p mem =
        reinforce (championName p) (spec_label participants p) (weight_of (win p))
          (build_sequence_of cat p) mem"
    using h by (simp add: train_participant_def valid_lanes_spec_lanes enemy_champ_of_spec_label)
  have s: "build_sequence_of cat p = map key_of_node (spec_sequence icat p)"
    using h by (intro build_sequence_of_spec_sequence) simp_all
  have g: "val (general_edge (snd (train_participant cat participants p mem)) c' ka kb) =
        val (general_edge (snd mem) c' ka kb) +
        (if c' = championName p then spec_contribution icat p ka kb else 0)" for c'
    unfolding t
    using reinforce_general_val [OF build_sequence_of_distinct, of "championName p"
        "spec_label participants p" "weight_of (win p)" cat p mem c' ka kb]
      follows_keys_contribution [of ka kb icat p]
    by (simp add: s)
  have sp: "val (specific_edge (fst (train_participant cat participants p mem)) c' e' ka kb) =
        val (specific_edge (fst mem) c' e' ka kb) +
        (if c' = championName p \<and> e' = spec_label participants p
         then spec_contribution icat p ka kb else 0)" for c' e'
    unfolding t
    using reinforce_specific_val [OF build_sequence_of_distinct, of "championName p"
        "spec_label participants p" "weight_of (win p)" cat p mem c' e' ka kb]
      follows_keys_contribution [of ka kb icat p]
    by (simp add: s)
  show "val (general_edge (snd (train_participant cat participants p mem)) c ka kb) =
        val (general_edge (snd mem) c ka kb) +
        (if c = championName p then spec_contribution icat p ka kb else 0)"
    by (rule g)
  show "val (specific_edge (fst (train_participant cat participants p mem)) c e ka kb) =
        val (specific_edge (fst mem) c e ka kb) +
        (if c = championName p \<and> e = spec_label participants p
         then spec_contribution icat p ka kb else 0)"
    by (rule sp)
  assume u: "\<forall>q \<in> set participants. teamId q = teamId p \<or> lane q \<noteq> lane p"
  show "val (specific_edge (fst (train_participant cat participants p mem))
                (championName p) ''Unknown'' ka kb) =
           val (specific_edge (fst mem) (championName p) ''Unknown'' ka kb) +
           spec_contribution icat p ka kb"
    using sp [of "championName p" "''Unknown''"] spec_label_unopposed [OF u] by simp
qed


theorem train_unopposed_as_unknown_witness:
  "lane roaming_garen = ''NONE'' \<and>
   train_participant scenario_catalog [roaming_garen] roaming_garen ([], []) = ([], []) \<and>
   spec_label [lone_garen] lone_garen = ''Unknown'' \<and>
   val (general_edge (snd (train_participant scenario_catalog [lone_garen] lone_garen ([], [])))
          ''Garen'' ''START'' ''3071'') = 3 \<and>
   val (specific_edge (fst (train_participant scenario_catalog [lone_garen] lone_garen ([], [])))
          ''Garen'' ''Unknown'' ''START'' ''3071'') = 3 \<and>
   spec_label [garen_a, darius_a] garen_a = ''Darius'' \<and>
   val (specific_edge (fst (train_participant scenario_catalog [garen_a, darius_a] garen_a ([], [])))
          ''Garen'' ''Darius'' ''3071'' ''3047'') = 3 \<and>
   spec_label [darius_b, garen_b] garen_b = ''Darius'' \<and>
   val (specific_edge (fst (train_participant scenario_catalog [darius_b, garen_b] garen_b ([], [])))
          ''Garen'' ''Darius'' ''START'' ''3071'') = 1 / 2"
proof -
  have lr: "lane roaming_garen \<notin> spec_lanes"
    by (simp add: roaming_garen_def spec_lanes_def)
  have w0: "lane roaming_garen = ''NONE''"
    by (simp add: roaming_garen_def)
  have w1: "train_participant scenario_catalog [roaming_garen] roaming_garen ([], []) = ([], [])"
    using lr
      train_unopposed_as_unknown [where p = roaming_garen and cat = scenario_catalog
        and participants = "[roaming_garen]" and mem = "([], [])"]
    by (rule_tac mp [OF conjunct1]) 
  have hl: "lane lone_garen \<in> spec_lanes \<and> catalog_agrees scenario_catalog scenario_items \<and>
      (\<forall>ev \<in> set (item_purchases lone_garen). etype ev = ITEM_PURCHASED)"
    by (simp add: scenario_catalog_agrees lone_garen_def spec_lanes_def buy_def)
  have ul: "\<forall>q \<in> set [lone_garen]. teamId q = teamId lone_garen \<or> lane q \<noteq> lane lone_garen"
    by simp
  note tl = mp [OF conjunct2 [OF conjunct2 [OF train_unopposed_as_unknown
      [where p = lone_garen and cat = scenario_catalog and participants = "[lone_garen]"
         and mem = "([], [])" and icat = scenario_items and c = "''Garen''"
         and ka = "''START''" and kb = "''3071''" and e = "''Unknown''"]]] hl]
  have cl: "championName lone_garen = ''Garen''" by (simp add: lone_garen_def)
  have w2: "val (general_edge (snd (train_participant scenario_catalog [lone_garen] lone_garen ([], [])))
          ''Garen'' ''START'' ''3071'') = 3"
    using conjunct1 [OF tl] by (simp add: empty_tables_val scenario_contributions cl)
  have w3: "val (specific_edge (fst (train_participant scenario_catalog [lone_garen] lone_garen ([], [])))
          ''Garen'' ''Unknown'' ''START'' ''3071'') = 3"
    using mp [OF conjunct2 [OF conjunct2 [OF tl]] ul]
    by (simp add: empty_tables_val scenario_contributions cl)
  have ha: "lane garen_a \<in> spec_lanes \<and> catalog_agrees scenario_catalog scenario_items \<and>
      (\<forall>ev \<in> set (item_purchases garen_a). etype ev = ITEM_PURCHASED)"
    by (simp add: scenario_catalog_agrees garen_a_def spec_lanes_def buy_def)
  note ta = mp [OF conjunct2 [OF conjunct2 [OF train_unopposed_as_unknown
      [where p = garen_a and cat = scenario_catalog and participants = "[garen_a, darius_a]"
         and mem = "([], [])" and icat = scenario_items and c = "''Garen''"
         and ka = "''3071''" and kb = "''3047''" and e = "''Darius''"]]] ha]
  have ca: "championName garen_a = ''Garen''" by (simp add: garen_a_def)
  have w4: "val (specific_edge (fst (train_participant scenario_catalog [garen_a, darius_a] garen_a ([], [])))
          ''Garen'' ''Darius'' ''3071'' ''3047'') = 3"
    using conjunct1 [OF conjunct2 [OF ta]]
    by (simp add: empty_tables_val scenario_contributions scenario_labels ca)
  have hb: "lane garen_b \<in> spec_lanes \<and> catalog_agrees scenario_catalog scenario_items \<and>
      (\<forall>ev \<in> set (item_purchases garen_b). etype ev = ITEM_PURCHASED)"
    by (simp add: scenario_catalog_agrees garen_b_def spec_lanes_def buy_def)
  note tb = mp [OF conjunct2 [OF conjunct2 [OF train_unopposed_as_unknown
      [where p = garen_b and cat = scenario_catalog and participants = "[darius_b, garen_b]"
         and mem = "([], [])" and icat = scenario_items and c = "''Garen''"
         and ka = "''START''" and kb = "''3071''" and e = "''Darius''"]]] hb]
  have cb: "championName garen_b = ''Garen''" by (simp add: garen_b_def)
  have w5: "val (specific_edge (fst (train_participant scenario_catalog [darius_b, garen_b] garen_b ([], [])))
          ''Garen'' ''Darius'' ''START'' ''3071'') = 1 / 2"
    using conjunct1 [OF conjunct2 [OF tb]]
    by (simp add: empty_tables_val scenario_contributions scenario_labels cb)
  show ?thesis
    by (intro conjI w0 w1 scenario_labels(1) w2 w3 scenario_labels(2) w4 scenario_labels(3) w5)
qed

lemma build_sequence_ignores_event_type:
  "map itemId (item_purchases p) = map itemId (item_purchases q) \<Longrightarrow>
   build_sequence_of cat p = build_sequence_of cat q"
proof -
  assume "map itemId (item_purchases p) = map itemId (item_purchases q)"
  then have "map str_int (map itemId (item_purchases p)) =
             map str_int (map itemId (item_purchases q))"
    by simp
  then have "map (\<lambda>pu. str_int (itemId pu)) (item_purchases p) =
             map (\<lambda>pu. str_int (itemId pu)) (item_purchases q)"
    by (simp add: comp_def)
  then show ?thesis
    by (simp add: build_sequence_of_first_occurrences)
qed

text \<open>
  Claim C6 says that only \<^verbatim>\<open>PURCHASED\<close> events reach the build sequence. The loop over
  \<^verbatim>\<open>item_purchases\<close> never reads the event type, and the match files do hold
  \<^verbatim>\<open>ITEM_SOLD\<close> and \<^verbatim>\<open>ITEM_DESTROYED\<close> events: a participant who only loses boots
  and sells a final item is trained as if both had been bought, in that order.
\<close>

theorem train_counts_non_purchases:
  "map etype (item_purchases seller) = [ITEM_DESTROYED, ITEM_SOLD] \<and>
   general_memory (train [[seller]] (init_advisor scenario_catalog)) =
     [(''Garen'', [(''START'', [(''3047'', 3)]), (''3047'', [(''3071'', 3)])])]"
  by (simp add: train_def train_files_def train_match_def
      train_participant_def init_advisor_def valid_lanes_def
      enemy_champ_of_def find_opponent_def build_sequence_of_def str_int_examples
      scenario_final weight_of_def add_specific_def add_general_def dd_modify_def seller_def)

section \<open>Only final items enter the tables\<close>

lemma set_update_subset: "set (AList.update k v al) \<subseteq> insert (k, v) (set al)"
  by (induction al) auto

lemma dd_modify_values:
  "x \<in> snd ` set (dd_modify d k f t) \<Longrightarrow>
   x \<in> snd ` set t \<or> x = f (case map_of t k of None \<Rightarrow> d | Some v \<Rightarrow> v)"
  using set_update_subset [of k "f (case map_of t k of None \<Rightarrow> d | Some v \<Rightarrow> v)" t]
  unfolding dd_modify_def by force

lemma dd_modify_keys: "fst ` set (dd_modify d k f t) = insert k (fst ` set t)"
  by (simp add: dd_modify_def dom_update)

lemma map_of_value_mem: "map_of t k = Some v \<Longrightarrow> v \<in> snd ` set t"
  by (force dest: map_of_SomeD)

lemma nodes_final_add:
  assumes tr: "nodes_final cat tr" and a: "a = ''START'' \<or> is_final_item a cat"
    and b: "is_final_item b cat"
  shows "nodes_final cat (dd_modify [] a (dd_modify 0 b f) tr)"
proof -
  let ?old = "case map_of tr a of None \<Rightarrow> [] | Some r \<Rightarrow> r"
  have old: "\<forall>x \<in> fst ` set ?old. is_final_item x cat"
  proof (cases "map_of tr a")
    case None
    then show ?thesis by simp
  next
    case (Some r)
    then have "fst ` set r \<subseteq> to_nodes tr"
      using map_of_value_mem [OF Some] unfolding to_nodes_def by blast
    then show ?thesis using tr Some by (auto simp: nodes_final_def)
  qed
  have "\<forall>x \<in> to_nodes (dd_modify [] a (dd_modify 0 b f) tr). is_final_item x cat"
  proof
    fix x assume "x \<in> to_nodes (dd_modify [] a (dd_modify 0 b f) tr)"
    then obtain r where r: "r \<in> snd ` set (dd_modify [] a (dd_modify 0 b f) tr)" "x \<in> fst ` set r"
      unfolding to_nodes_def by blast
    from dd_modify_values [OF r(1)] show "is_final_item x cat"
    proof
      assume "r \<in> snd ` set tr"
      then have "x \<in> to_nodes tr" using r(2) unfolding to_nodes_def by blast
      then show ?thesis using tr by (simp add: nodes_final_def)
    next
      assume "r = dd_modify 0 b f ?old"
      then have "x \<in> insert b (fst ` set ?old)" using r(2) by (simp add: dd_modify_keys)
      then show ?thesis using b old by blast
    qed
  qed
  moreover have "\<forall>x \<in> from_nodes (dd_modify [] a (dd_modify 0 b f) tr). x = ''START'' \<or> is_final_item x cat"
    using tr a by (auto simp: from_nodes_def dd_modify_keys nodes_final_def)
  ultimately show ?thesis by (simp add: nodes_final_def)
qed

lemma nodes_final_empty: "nodes_final cat []"
  by (simp add: nodes_final_def from_nodes_def to_nodes_def)

lemma general_tables_add:
  assumes g: "\<forall>tr \<in> general_tables gm. nodes_final cat tr"
    and a: "a = ''START'' \<or> is_final_item a cat" and b: "is_final_item b cat"
  shows "\<forall>tr \<in> general_tables (add_general c a b w gm). nodes_final cat tr"
proof
  fix tr assume "tr \<in> general_tables (add_general c a b w gm)"
  then have "tr \<in> snd ` set gm \<or>
      tr = dd_modify [] a (dd_modify 0 b (\<lambda>s. s + w)) (case map_of gm c of None \<Rightarrow> [] | Some v \<Rightarrow> v)"
    unfolding general_tables_def add_general_def by (rule dd_modify_values)
  then show "nodes_final cat tr"
  proof
    assume "tr \<in> snd ` set gm"
    then show ?thesis using g unfolding general_tables_def by blast
  next
    assume t: "tr = dd_modify [] a (dd_modify 0 b (\<lambda>s. s + w)) (case map_of gm c of None \<Rightarrow> [] | Some v \<Rightarrow> v)"
    have "nodes_final cat (case map_of gm c of None \<Rightarrow> [] | Some v \<Rightarrow> v)"
    proof (cases "map_of gm c")
      case None
      then show ?thesis by (simp add: nodes_final_empty)
    next
      case (Some v)
      then show ?thesis using g map_of_value_mem [OF Some] unfolding general_tables_def by auto
    qed
    then show ?thesis unfolding t using a b by (rule nodes_final_add)
  qed
qed

lemma specific_tables_add:
  assumes s: "\<forall>tr \<in> specific_tables sm. nodes_final cat tr"
    and a: "a = ''START'' \<or> is_final_item a cat" and b: "is_final_item b cat"
  shows "\<forall>tr \<in> specific_tables (add_specific c e a b w sm). nodes_final cat tr"
proof
  fix tr assume "tr \<in> specific_tables (add_specific c e a b w sm)"
  then obtain g where g: "g \<in> snd ` set (add_specific c e a b w sm)" "tr \<in> general_tables g"
    unfolding specific_tables_def general_tables_def by blast
  let ?old = "case map_of sm c of None \<Rightarrow> [] | Some v \<Rightarrow> v"
  from g(1) have "g \<in> snd ` set sm \<or> g = add_general e a b w ?old"
    unfolding add_specific_def by (rule dd_modify_values)
  then show "nodes_final cat tr"
  proof
    assume "g \<in> snd ` set sm"
    then have "tr \<in> specific_tables sm"
      using g(2) unfolding specific_tables_def general_tables_def by blast
    then show ?thesis using s by simp
  next
    assume n: "g = add_general e a b w ?old"
    have "\<forall>tr \<in> general_tables ?old. nodes_final cat tr"
    proof (cases "map_of sm c")
      case None
      then show ?thesis by (simp add: general_tables_def)
    next
      case (Some v)
      have "general_tables v \<subseteq> specific_tables sm"
        using map_of_value_mem [OF Some] unfolding specific_tables_def general_tables_def by blast
      then show ?thesis using s Some by auto
    qed
    from general_tables_add [OF this a b] show ?thesis using g(2) n by simp
  qed
qed

lemma reinforce_final:
  "memory_final cat mem \<Longrightarrow> (\<forall>x \<in> set (tl s). is_final_item x cat) \<Longrightarrow>
   (s \<noteq> [] \<longrightarrow> hd s = ''START'' \<or> is_final_item (hd s) cat) \<Longrightarrow>
   memory_final cat (reinforce c e w s mem)"
proof (induction c e w s mem rule: reinforce.induct)
  case (1 c e w cur nxt rest sm gm)
  have a: "cur = ''START'' \<or> is_final_item cur cat" using "1.prems"(3) by simp
  have b: "is_final_item nxt cat" using "1.prems"(2) by simp
  have g: "\<forall>tr \<in> general_tables gm. nodes_final cat tr"
    and s: "\<forall>tr \<in> specific_tables sm. nodes_final cat tr"
    using "1.prems"(1) by (simp_all add: memory_final_def)
  have "memory_final cat (add_specific c e cur nxt w sm, add_general c cur nxt w gm)"
    using general_tables_add [OF g a b, of c w] specific_tables_add [OF s a b, of c e w]
    by (auto simp: memory_final_def)
  then show ?case
    using "1.IH" "1.prems"(2) b by simp
qed simp_all

lemma learn_obs_final:
  "memory_final cat mem \<Longrightarrow> ob \<in> set (reinforce_calls cat files) \<Longrightarrow>
   memory_final cat (learn_obs ob mem)"
proof -
  assume m: "memory_final cat mem" and o: "ob \<in> set (reinforce_calls cat files)"
  then obtain c e w p where ob: "ob = (c, e, w, build_sequence_of cat p)"
    by (auto simp: reinforce_calls_def)
  show ?thesis
    unfolding ob learn_obs_def prod.case
    by (rule reinforce_final [OF m])
       (auto simp: build_sequence_of_final, simp add: build_sequence_of_shape)
qed

lemma fold_learn_obs_final:
  "memory_final cat mem \<Longrightarrow> set obs \<subseteq> set (reinforce_calls cat files) \<Longrightarrow>
   memory_final cat (fold learn_obs obs mem)"
proof (induction obs arbitrary: mem)
  case Nil
  then show ?case by simp
next
  case (Cons ob obs)
  have "memory_final cat (learn_obs ob mem)"
    using Cons.prems by (intro learn_obs_final) auto
  then show ?case using Cons.IH Cons.prems by simp
qed

lemma train_memory_final:
  "memory_final cat (train_files cat files ([], []))"
  unfolding train_files_obs
  by (rule fold_learn_obs_final [where files = files])
     (simp_all add: memory_final_def general_tables_def specific_tables_def)

lemma nodes_final_to:
  "nodes_final cat tr \<Longrightarrow> b \<in> to_nodes tr \<Longrightarrow> cat b \<noteq> None \<and> is_final_item b cat"
  by (auto simp: nodes_final_def dest: is_final_item_in_catalog)

lemma nodes_final_node:
  "nodes_final cat tr \<Longrightarrow> n \<in> from_nodes tr \<union> to_nodes tr \<Longrightarrow> n \<noteq> ''START'' \<Longrightarrow>
   cat n \<noteq> None \<and> is_final_item n cat"
  by (auto simp: nodes_final_def dest: is_final_item_in_catalog)

text \<open>
  Claim C10. After training from the empty tables, every node other than \<^verbatim>\<open>START\<close> that
  occurs in the general table or in any opponent's specific table, as a from-node key or as
  a to-node key, is an identifier present in the catalog that satisfies
  \<^verbatim>\<open>is_final_item\<close>. Consequently every identifier in a list that \<^verbatim>\<open>recommend_build\<close>
  returns from the trained tables is a final item of the catalog.
\<close>

theorem trained_nodes_are_final:
  "(\<forall>tr \<in> general_tables (general_memory (train files (init_advisor cat))) \<union>
            specific_tables (specific_memory (train files (init_advisor cat))).
      \<forall>n \<in> from_nodes tr \<union> to_nodes tr.
        n \<noteq> ''START'' \<longrightarrow> cat n \<noteq> None \<and> is_final_item n cat) \<and>
   (\<forall>p. fst (recommend_build (train files (init_advisor cat)) my_champ enemy_champ) = Some p \<longrightarrow>
      (\<forall>i \<in> set p. cat i \<noteq> None \<and> is_final_item i cat))"
proof (intro conjI ballI allI impI)
  let ?ai = "train files (init_advisor cat)"
  have m: "nodes_final cat tr"
    if "tr \<in> general_tables (general_memory ?ai) \<union> specific_tables (specific_memory ?ai)" for tr
    using train_memory_final [of cat files] that by (simp add: memory_final_def trained_memory)
  {
    fix tr n
    assume t: "tr \<in> general_tables (general_memory ?ai) \<union> specific_tables (specific_memory ?ai)"
      and n: "n \<in> from_nodes tr \<union> to_nodes tr" "n \<noteq> ''START''"
    have nf: "nodes_final cat tr" using t by (rule m)
    show "cat n \<noteq> None" using nodes_final_node [OF nf n] by (rule conjunct1)
    show "is_final_item n cat" using nodes_final_node [OF nf n] by (rule conjunct2)
  }
  {
    fix p i
    assume p: "fst (recommend_build ?ai my_champ enemy_champ) = Some p" and i: "i \<in> set p"
    obtain tr where tr: "selected_table ?ai my_champ enemy_champ = Some tr"
      and pg: "p = greedy_loop 6 tr ''START'' [] {}"
      using p by (auto simp: recommend_build_result split: option.splits list.splits)
    have nf: "nodes_final cat tr" using selected_table_mem [OF tr] by (rule m)
    have "set p \<subseteq> to_nodes tr"
      using greedy_loop_props [of 6 tr "''START''" "{}"] pg by simp
    then have it: "i \<in> to_nodes tr" using i by (rule subsetD)
    show "cat i \<noteq> None" using nodes_final_to [OF nf it] by (rule conjunct1)
    show "is_final_item i cat" using nodes_final_to [OF nf it] by (rule conjunct2)
  }
qed

lemma scenario_tables:
  "general_tables (general_memory scenario_trained) \<union>
     specific_tables (specific_memory scenario_trained) =
     {[(''START'', [(''3071'', 7 / 2)]), (''3071'', [(''3047'', 3), (''3078'', 1 / 2)])]}"
  by (simp add: scenario_trained_tables general_tables_def specific_tables_def)

lemma scenario_nodes:
  "from_nodes [(''START'', [(''3071'', 7 / 2)]), (''3071'', [(''3047'', 3), (''3078'', 1 / 2)])] \<union>
   to_nodes [(''START'', [(''3071'', 7 / 2)]), (''3071'', [(''3047'', 3), (''3078'', 1 / 2)])] =
     {''START'', ''3071'', ''3047'', ''3078''}"
  by (auto simp: from_nodes_def to_nodes_def)

theorem trained_nodes_are_final_witness:
  "[(''START'', [(''3071'', 7 / 2)]), (''3071'', [(''3047'', 3), (''3078'', 1 / 2)])]
     \<in> general_tables (general_memory scenario_trained) \<union>
        specific_tables (specific_memory scenario_trained) \<and>
   ''3078'' \<in> from_nodes [(''START'', [(''3071'', 7 / 2)]),
                            (''3071'', [(''3047'', 3), (''3078'', 1 / 2)])] \<union>
               to_nodes [(''START'', [(''3071'', 7 / 2)]),
                          (''3071'', [(''3047'', 3), (''3078'', 1 / 2)])] \<and>
   scenario_catalog ''3078'' \<noteq> None \<and> is_final_item ''3078'' scenario_catalog \<and>
   fst (recommend_build scenario_trained ''Garen'' (Some ''Darius'')) = Some [''3071'', ''3047''] \<and>
   scenario_catalog ''3071'' \<noteq> None \<and> is_final_item ''3071'' scenario_catalog \<and>
   scenario_catalog ''3047'' \<noteq> None \<and> is_final_item ''3047'' scenario_catalog"
proof -
  let ?T = "[(''START'', [(''3071'', 7 / 2)]), (''3071'', [(''3047'', 3), (''3078'', 1 / 2 :: rat)])]"
  note t = trained_nodes_are_final [of scenario_files scenario_catalog "''Garen''" "Some ''Darius''",
      folded scenario_trained_def]
  have T: "?T \<in> general_tables (general_memory scenario_trained) \<union>
                specific_tables (specific_memory scenario_trained)"
    by (simp add: scenario_tables)
  have n: "''3078'' \<in> from_nodes ?T \<union> to_nodes ?T"
    by (simp add: scenario_nodes)
  have "''3078'' \<noteq> ''START'' \<longrightarrow>
        scenario_catalog ''3078'' \<noteq> None \<and> is_final_item ''3078'' scenario_catalog"
    by (rule bspec [OF bspec [OF conjunct1 [OF t] T] n])
  then have f: "scenario_catalog ''3078'' \<noteq> None \<and> is_final_item ''3078'' scenario_catalog"
    by simp
  have r: "fst (recommend_build scenario_trained ''Garen'' (Some ''Darius'')) = Some [''3071'', ''3047'']"
    by (rule scenario_recommend(1))
  have p: "\<forall>i \<in> set [''3071'', ''3047'']. scenario_catalog i \<noteq> None \<and> is_final_item i scenario_catalog"
    by (rule mp [OF spec [OF conjunct2 [OF t]] r])
  have p1: "scenario_catalog ''3071'' \<noteq> None \<and> is_final_item ''3071'' scenario_catalog"
    by (rule bspec [OF p]) simp
  have p2: "scenario_catalog ''3047'' \<noteq> None \<and> is_final_item ''3047'' scenario_catalog"
    by (rule bspec [OF p]) simp
  show ?thesis
    by (intro conjI T n conjunct1 [OF f] conjunct2 [OF f] r conjunct1 [OF p1] conjunct2 [OF p1]
        conjunct1 [OF p2] conjunct2 [OF p2])
qed

end
